theory Spec2Isabelle
  imports Complex_Main "HOL-Library.Word" "HOL-Library.Sublist" "HOL-Library.Multiset"
    "HOL-Library.Product_Lexorder"
begin

section \<open>Strings, paths and Python dictionaries\<close>

text \<open>
  Python renders an integer inside an f-string in decimal. Every counter the program
  renders (\<open>group_id\<close>, \<open>person_counter\<close>, the collision \<open>counter\<close>) is non-negative,
  so the model renders naturals.
\<close>

definition digit_char :: "nat \<Rightarrow> char" where
  "digit_char d = ''0123456789'' ! d"

fun str_nat :: "nat \<Rightarrow> string" where
  "str_nat n = (if n < 10 then [digit_char n]
                else str_nat (n div 10) @ [digit_char (n mod 10)])"

declare str_nat.simps [simp del]

text \<open>
  A \<open>pathlib.Path\<close> is its list of components; \<open>p / name\<close> appends one component
  (and is \<open>p\<close> itself when the name is empty).
  \<open>name\<close>, \<open>suffix\<close> and \<open>stem\<close> follow pathlib: the suffix starts at the last dot of
  the name, unless that dot is the first or the last character.
\<close>

type_synonym path = "string list"

definition path_join :: "path \<Rightarrow> string \<Rightarrow> path" where
  "path_join p n = (if n = [] then p else p @ [n])"

definition path_name :: "path \<Rightarrow> string" where
  "path_name p = (if p = [] then [] else last p)"

definition rfind_dot :: "string \<Rightarrow> int" where
  "rfind_dot s =
     (if CHR ''.'' \<in> set s
      then int (length s) - 1 - int (length (takeWhile (\<lambda>c. c \<noteq> CHR ''.'') (rev s)))
      else - 1)"

definition path_suffix :: "path \<Rightarrow> string" where
  "path_suffix p =
     (let name = path_name p; i = rfind_dot name
      in if 0 < i \<and> i < int (length name) - 1 then drop (nat i) name else [])"

definition path_stem :: "path \<Rightarrow> string" where
  "path_stem p =
     (let name = path_name p; i = rfind_dot name
      in if 0 < i \<and> i < int (length name) - 1 then take (nat i) name else name)"

text \<open>
  A Python \<open>dict\<close> keeps its keys in insertion order: an association list with distinct
  keys. \<open>d[k] = v\<close> replaces the value in place when \<open>k\<close> is present and appends the
  pair otherwise; \<open>d[k].append(x)\<close> on a \<open>defaultdict(list)\<close> starts from the empty list.
\<close>

fun dict_set :: "('k \<times> 'v) list \<Rightarrow> 'k \<Rightarrow> 'v \<Rightarrow> ('k \<times> 'v) list" where
  "dict_set [] k v = [(k, v)]"
| "dict_set ((k', v') # d) k v =
     (if k' = k then (k, v) # d else (k', v') # dict_set d k v)"

definition dict_get :: "('k \<times> 'v) list \<Rightarrow> 'k \<Rightarrow> 'v option" where
  "dict_get d k = map_of d k"

definition dict_append :: "('k \<times> 'v list) list \<Rightarrow> 'k \<Rightarrow> 'v \<Rightarrow> ('k \<times> 'v list) list" where
  "dict_append d k x =
     dict_set d k ((case dict_get d k of None \<Rightarrow> [] | Some xs \<Rightarrow> xs) @ [x])"

lemma digit_char_inj:
  assumes "i < 10" "j < 10" "digit_char i = digit_char j"
  shows "i = j"
proof -
  have d: "distinct ''0123456789''" by simp
  have "length ''0123456789'' = 10" by simp
  with assms d show "i = j" unfolding digit_char_def
    by (metis nth_eq_iff_index_eq)
qed

lemma str_nat_nonempty: "str_nat n \<noteq> []"
  by (subst str_nat.simps) simp

lemma str_nat_inj: "str_nat n = str_nat m \<Longrightarrow> n = m"
proof (induction n arbitrary: m rule: str_nat.induct)
  case (1 n)
  show ?case
  proof (cases "n < 10")
    case True
    note n = this
    show ?thesis
    proof (cases "m < 10")
      case True
      with n "1.prems" show ?thesis
        by (simp add: str_nat.simps[of n] str_nat.simps[of m] digit_char_inj)
    next
      case False
      with n "1.prems" str_nat_nonempty[of "m div 10"] show ?thesis
        by (auto simp add: str_nat.simps[of n] str_nat.simps[of m])
    qed
  next
    case False
    note n = this
    show ?thesis
    proof (cases "m < 10")
      case True
      with n "1.prems" str_nat_nonempty[of "n div 10"] show ?thesis
        by (auto simp add: str_nat.simps[of n] str_nat.simps[of m])
    next
      case False
      with n "1.prems" have e: "str_nat (n div 10) = str_nat (m div 10)"
        and d: "digit_char (n mod 10) = digit_char (m mod 10)"
        by (simp_all add: str_nat.simps[of n] str_nat.simps[of m])
      from "1.IH"[OF n e] have "n div 10 = m div 10" .
      moreover from d have "n mod 10 = m mod 10"
        by (intro digit_char_inj) simp_all
      ultimately show ?thesis
        by (metis div_mult_mod_eq)
    qed
  qed
qed

lemma dict_set_keys:
  "map fst (dict_set d k v) = (if k \<in> fst ` set d then map fst d else map fst d @ [k])"
  by (induction d) force+

lemma dict_set_fresh: "k \<notin> fst ` set d \<Longrightarrow> dict_set d k v = d @ [(k, v)]"
  by (induction d) auto

lemma dict_set_distinct: "distinct (map fst d) \<Longrightarrow> distinct (map fst (dict_set d k v))"
  by (simp add: dict_set_keys)

lemma dict_set_lookup:
  "map_of (dict_set d k v) k' = (if k' = k then Some v else map_of d k')"
  by (induction d) auto

section \<open>The processor and its collaborators\<close>

text \<open>
  The three perceptual hashes come from the \<open>imagehash\<close> library with its default
  \<open>hash_size = 8\<close>: each is an 8 x 8 bit array, here a 64-bit word. Subtracting two
  hashes counts the positions where they differ.
\<close>

definition hash_diff :: "64 word \<Rightarrow> 64 word \<Rightarrow> nat" where
  "hash_diff a b = length (filter (\<lambda>i. bit a i \<noteq> bit b i) [0..<64])"

text \<open>The dictionary returned by \<open>calculate_image_hashes\<close>.\<close>

record image_hashes =
  phash :: "64 word"
  dhash :: "64 word"
  whash :: "64 word"
  hsize :: nat
  hwidth :: nat
  hheight :: nat
  hpixels :: nat

type_synonym resolution = "nat \<times> nat \<times> nat"

text \<open>
  \<open>calculate_md5_hash\<close>, \<open>calculate_image_hashes\<close> and \<open>get_image_resolution\<close> read one
  file through hashlib, PIL and imagehash and return \<open>None\<close> on any exception. What they
  return for each path is the input of a scan.
\<close>

record scan_env =
  calculate_md5_hash :: "path \<Rightarrow> string option"
  calculate_image_hashes :: "path \<Rightarrow> image_hashes option"
  get_image_resolution :: "path \<Rightarrow> resolution option"

text \<open>
  The fields of an \<open>ImageProcessor\<close>. A face encoding is a vector of floating-point
  numbers, modelled as a list of reals; \<open>known_faces\<close> is a dictionary from person name
  to encoding.
\<close>

record processor =
  source_dirs :: "path list"
  output_dir :: path
  supported_formats :: "string set"
  known_faces :: "(string \<times> real list) list"
  person_counter :: nat
  hash_threshold :: int
  use_cnn :: bool

definition face_model :: "processor \<Rightarrow> string" where
  "face_model self = (if use_cnn self then ''cnn'' else ''hog'')"

text \<open>\<open>__init__\<close>: an omitted keyword argument is \<open>None\<close> and takes its default.\<close>

definition ImageProcessor_init ::
  "path list \<Rightarrow> path option \<Rightarrow> int option \<Rightarrow> bool option \<Rightarrow> processor" where
  "ImageProcessor_init dirs out thr cnn =
     \<lparr> source_dirs = dirs,
       output_dir = (case out of None \<Rightarrow> [''organized_images''] | Some p \<Rightarrow> p),
       supported_formats =
         {''.jpg'', ''.jpeg'', ''.png'', ''.bmp'', ''.gif'', ''.tiff'', ''.webp''},
       known_faces = [],
       person_counter = 0,
       hash_threshold = (case thr of None \<Rightarrow> 5 | Some t \<Rightarrow> t),
       use_cnn = (case cnn of None \<Rightarrow> True | Some b \<Rightarrow> b) \<rparr>"

section \<open>\<open>find_duplicates\<close>\<close>

subsection \<open>Step 1: exact duplicates by MD5\<close>

fun md5_loop ::
  "scan_env \<Rightarrow> path list \<Rightarrow> (string \<times> path list) list \<Rightarrow> (string \<times> path list) list" where
  "md5_loop env [] md5_to_files = md5_to_files"
| "md5_loop env (img_path # rest) md5_to_files =
     (case calculate_md5_hash env img_path of
        None \<Rightarrow> md5_loop env rest md5_to_files
      | Some md5_hash \<Rightarrow>
          if md5_hash = [] then md5_loop env rest md5_to_files
          else md5_loop env rest (dict_append md5_to_files md5_hash img_path))"

text \<open>
  The dictionary comprehension keys each group by \<open>exact_\<close> followed by its digest; the
  digests are the distinct keys of \<open>md5_to_files\<close>, so no key is written twice.
\<close>

definition exact_duplicates :: "scan_env \<Rightarrow> path list \<Rightarrow> (string \<times> path list) list" where
  "exact_duplicates env image_files =
     map (\<lambda>(md5, files). (''exact_'' @ md5, files))
       (filter (\<lambda>(md5, files). length files > 1) (md5_loop env image_files []))"

subsection \<open>Step 2: similar images by perceptual hashing\<close>

fun hash_loop ::
  "scan_env \<Rightarrow> path list \<Rightarrow> (path \<times> image_hashes) list \<Rightarrow> (path \<times> image_hashes) list" where
  "hash_loop env [] image_hashes = image_hashes"
| "hash_loop env (img_path # rest) image_hashes =
     (case calculate_image_hashes env img_path of
        None \<Rightarrow> hash_loop env rest image_hashes
      | Some hashes \<Rightarrow> hash_loop env rest (dict_set image_hashes img_path hashes))"

text \<open>The condition under which \<open>img2_path\<close> is appended to the group of \<open>img1_path\<close>.\<close>

definition join_condition :: "int \<Rightarrow> image_hashes \<Rightarrow> image_hashes \<Rightarrow> bool" where
  "join_condition threshold hash1 hash2 =
     (let phash_diff = int (hash_diff (phash hash1) (phash hash2));
          dhash_diff = int (hash_diff (dhash hash1) (dhash hash2));
          whash_diff = int (hash_diff (whash hash1) (whash hash2))
      in (phash_diff \<le> threshold \<and> dhash_diff \<le> threshold \<and> whash_diff \<le> threshold)
         \<or> (of_bool (phash_diff \<le> threshold) + of_bool (dhash_diff \<le> threshold)
            + of_bool (whash_diff \<le> threshold) \<ge> (2 :: nat)))"

text \<open>
  The inner loop over \<open>image_hashes.items()\<close>, for the seed \<open>img1_path\<close>; the state is
  the group so far and the set \<open>processed\<close>.
\<close>

fun inner_loop ::
  "int \<Rightarrow> path \<Rightarrow> image_hashes \<Rightarrow> (path \<times> image_hashes) list \<Rightarrow>
   path list \<times> path set \<Rightarrow> path list \<times> path set" where
  "inner_loop threshold img1_path hash1 [] (grp, processed) = (grp, processed)"
| "inner_loop threshold img1_path hash1 ((img2_path, hash2) # rest) (grp, processed) =
     (if img2_path \<in> processed \<or> img1_path = img2_path
      then inner_loop threshold img1_path hash1 rest (grp, processed)
      else if join_condition threshold hash1 hash2
      then inner_loop threshold img1_path hash1 rest
             (grp @ [img2_path], insert img2_path processed)
      else inner_loop threshold img1_path hash1 rest (grp, processed))"

text \<open>
  The outer loop: \<open>items\<close> is the whole dictionary, \<open>todo\<close> the part of it still to be
  visited as a seed.
\<close>

fun outer_loop ::
  "int \<Rightarrow> (path \<times> image_hashes) list \<Rightarrow> (path \<times> image_hashes) list \<Rightarrow>
   path list list \<times> path set \<Rightarrow> path list list \<times> path set" where
  "outer_loop threshold items [] (similar_groups, processed) = (similar_groups, processed)"
| "outer_loop threshold items ((img1_path, hash1) # todo) (similar_groups, processed) =
     (if img1_path \<in> processed
      then outer_loop threshold items todo (similar_groups, processed)
      else
        let (grp, processed') =
              inner_loop threshold img1_path hash1 items ([img1_path], insert img1_path processed)
        in outer_loop threshold items todo
             (if length grp > 1 then similar_groups @ [grp] else similar_groups,
              processed'))"

definition similar_groups_of :: "processor \<Rightarrow> scan_env \<Rightarrow> path list \<Rightarrow> path list list" where
  "similar_groups_of self env image_files =
     (let image_hashes = hash_loop env image_files []
      in fst (outer_loop (hash_threshold self) image_hashes image_hashes ([], {})))"

subsection \<open>Combining the results\<close>

record group_data =
  files :: "path list"
  resolutions :: "(path \<times> resolution) list"
  gtype :: string

fun resolutions_loop ::
  "scan_env \<Rightarrow> path list \<Rightarrow> (path \<times> resolution) list \<Rightarrow> (path \<times> resolution) list" where
  "resolutions_loop env [] rs = rs"
| "resolutions_loop env (f # rest) rs =
     (case get_image_resolution env f of
        None \<Rightarrow> resolutions_loop env rest rs
      | Some res \<Rightarrow> resolutions_loop env rest (dict_set rs f res))"

definition group_key :: "nat \<Rightarrow> string" where
  "group_key group_id = ''group_'' @ str_nat group_id"

fun exact_combine ::
  "scan_env \<Rightarrow> (string \<times> path list) list \<Rightarrow> (string \<times> group_data) list \<times> nat \<Rightarrow>
   (string \<times> group_data) list \<times> nat" where
  "exact_combine env [] (all_duplicates, group_id) = (all_duplicates, group_id)"
| "exact_combine env ((group_id_str, fs) # rest) (all_duplicates, group_id) =
     exact_combine env rest
       (dict_set all_duplicates (group_key group_id)
          \<lparr> files = fs, resolutions = resolutions_loop env fs [], gtype = ''exact'' \<rparr>,
        group_id + 1)"

definition exact_files_of :: "(string \<times> path list) list \<Rightarrow> path set" where
  "exact_files_of exact = \<Union> (set ` snd ` set exact)"

fun similar_combine ::
  "scan_env \<Rightarrow> path set \<Rightarrow> path list list \<Rightarrow> (string \<times> group_data) list \<times> nat \<Rightarrow>
   (string \<times> group_data) list \<times> nat" where
  "similar_combine env exact_files [] (all_duplicates, group_id) = (all_duplicates, group_id)"
| "similar_combine env exact_files (grp # rest) (all_duplicates, group_id) =
     (if \<not> (\<exists>f \<in> set grp. f \<in> exact_files)
      then similar_combine env exact_files rest
             (dict_set all_duplicates (group_key group_id)
                \<lparr> files = grp, resolutions = resolutions_loop env grp [],
                  gtype = ''similar'' \<rparr>,
              group_id + 1)
      else similar_combine env exact_files rest (all_duplicates, group_id))"

definition find_duplicates ::
  "processor \<Rightarrow> scan_env \<Rightarrow> path list \<Rightarrow> (string \<times> group_data) list" where
  "find_duplicates self env image_files =
     (let exact = exact_duplicates env image_files;
          similar_groups = similar_groups_of self env image_files;
          exact_files = exact_files_of exact
      in fst (similar_combine env exact_files similar_groups
                (exact_combine env exact ([], 0))))"

subsection \<open>Notions for the properties of a scan\<close>

text \<open>
  Notions used to state and prove the properties of a scan. \<open>joiners\<close> lists, in
  dictionary order, the files that join the group of a seed.
\<close>

definition joiners :: "int \<Rightarrow> path \<Rightarrow> image_hashes \<Rightarrow> path set \<Rightarrow> (path \<times> image_hashes) list \<Rightarrow> path list" where
  "joiners t p h P items =
     map fst (filter (\<lambda>(q, hq). q \<notin> P \<and> q \<noteq> p \<and> join_condition t h hq) items)"

definition disjoint_lists :: "'a list \<Rightarrow> 'a list \<Rightarrow> bool" where
  "disjoint_lists g h = (set g \<inter> set h = {})"

definition md5_inv :: "scan_env \<Rightarrow> (string \<times> path list) list \<Rightarrow> bool" where
  "md5_inv env d \<longleftrightarrow>
     distinct (map fst d) \<and>
     (\<forall>e \<in> set d. \<forall>f \<in> set (snd e). calculate_md5_hash env f = Some (fst e))"

definition exact_groups :: "scan_env \<Rightarrow> path list \<Rightarrow> path list list" where
  "exact_groups env image_files = map snd (exact_duplicates env image_files)"

definition keyed :: "group_data list \<Rightarrow> (string \<times> group_data) list" where
  "keyed gs = map (\<lambda>(i, g). (group_key i, g)) (enumerate 0 gs)"

definition mk_exact :: "scan_env \<Rightarrow> path list \<Rightarrow> group_data" where
  "mk_exact env fs = \<lparr> files = fs, resolutions = resolutions_loop env fs [], gtype = ''exact'' \<rparr>"

definition mk_similar :: "scan_env \<Rightarrow> path list \<Rightarrow> group_data" where
  "mk_similar env fs = \<lparr> files = fs, resolutions = resolutions_loop env fs [], gtype = ''similar'' \<rparr>"

definition kept_similar :: "processor \<Rightarrow> scan_env \<Rightarrow> path list \<Rightarrow> path list list" where
  "kept_similar self env fs =
     filter (\<lambda>g. \<not> (\<exists>f \<in> set g. f \<in> exact_files_of (exact_duplicates env fs)))
       (similar_groups_of self env fs)"

text \<open>
  Membership of a file in a returned group of a given kind, the list of the returned
  similar groups, and the input with the files of the exact groups removed.
\<close>

definition in_group_of_type :: "string \<Rightarrow> (string \<times> group_data) list \<Rightarrow> path \<Rightarrow> bool" where
  "in_group_of_type ty all_duplicates f =
     (\<exists>e \<in> set all_duplicates. gtype (snd e) = ty \<and> f \<in> set (files (snd e)))"

definition ungrouped :: "(string \<times> group_data) list \<Rightarrow> path \<Rightarrow> bool" where
  "ungrouped all_duplicates f = (\<forall>e \<in> set all_duplicates. f \<notin> set (files (snd e)))"

definition similar_part :: "(string \<times> group_data) list \<Rightarrow> path list list" where
  "similar_part all_duplicates =
     map (\<lambda>e. files (snd e)) (filter (\<lambda>e. gtype (snd e) = ''similar'') all_duplicates)"

definition without_exact :: "processor \<Rightarrow> scan_env \<Rightarrow> path list \<Rightarrow> path list" where
  "without_exact self env image_files =
     filter (\<lambda>f. \<not> in_group_of_type ''exact'' (find_duplicates self env image_files) f)
       image_files"

text \<open>
  A concrete scan: \<open>a.jpg\<close> and \<open>b.jpg\<close> are byte-identical; \<open>c.jpg\<close> is within
  the threshold of \<open>a.jpg\<close> and of \<open>d.jpg\<close>, which are 8 bits apart; \<open>e.png\<close> and
  \<open>f.png\<close> differ in one bit and are far from all the others.
\<close>

definition ex_A :: path where "ex_A = [''photos'', ''a.jpg'']"

definition ex_B :: path where "ex_B = [''photos'', ''b.jpg'']"

definition ex_C :: path where "ex_C = [''photos'', ''c.jpg'']"

definition ex_D :: path where "ex_D = [''photos'', ''d.jpg'']"

definition ex_E :: path where "ex_E = [''photos'', ''e.png'']"

definition ex_F :: path where "ex_F = [''photos'', ''f.png'']"

definition ex_hashes :: "64 word \<Rightarrow> image_hashes" where
  "ex_hashes w = \<lparr> phash = w, dhash = w, whash = w, hsize = 100, hwidth = 10,
                   hheight = 10, hpixels = 100 \<rparr>"

definition ex_env :: scan_env where
  "ex_env =
     \<lparr> calculate_md5_hash = (\<lambda>p.
         if p = ex_A \<or> p = ex_B then Some ''0cc175b9c0f1b6a831c399e269772661''
         else if p = ex_C then Some ''92eb5ffee6ae2fec3ad71c777531578f''
         else if p = ex_D then Some ''4a8a08f09d37b73795649038408b5f33''
         else if p = ex_E then Some ''8277e0910d750195b448797616e091ad''
         else if p = ex_F then Some ''e1671797c52e15f763380b45e841ec32''
         else None),
       calculate_image_hashes = (\<lambda>p.
         if p = ex_A \<or> p = ex_B then Some (ex_hashes 0)
         else if p = ex_C then Some (ex_hashes 0x0F)
         else if p = ex_D then Some (ex_hashes 0xFF)
         else if p = ex_E then Some (ex_hashes 0xFFFF0000)
         else if p = ex_F then Some (ex_hashes 0xFFFF0001)
         else None),
       get_image_resolution = (\<lambda>p. Some (10, 10, 100)) \<rparr>"

definition ex_self :: processor where
  "ex_self = ImageProcessor_init [[''photos'']] None None None"

definition exactly_one :: "bool \<Rightarrow> bool \<Rightarrow> bool \<Rightarrow> bool" where
  "exactly_one a b c = ((a \<and> \<not> b \<and> \<not> c) \<or> (\<not> a \<and> b \<and> \<not> c) \<or> (\<not> a \<and> \<not> b \<and> c))"

definition ex_files :: "path list" where
  "ex_files = [ex_A, ex_B, ex_C, ex_D, ex_E, ex_F]"

subsection \<open>Properties of the loops\<close>

lemma join_condition_majority:
  "join_condition t h1 h2 \<longleftrightarrow>
     2 \<le> length (filter (\<lambda>d. int d \<le> t)
            [hash_diff (phash h1) (phash h2), hash_diff (dhash h1) (dhash h2),
             hash_diff (whash h1) (whash h2)])"
  unfolding join_condition_def Let_def by simp

lemma joiners_Nil: "joiners t p h P [] = []"
  by (simp add: joiners_def)

lemma joiners_Cons:
  "joiners t p h P ((q, hq) # items) =
     (if q \<notin> P \<and> q \<noteq> p \<and> join_condition t h hq then q # joiners t p h P items
      else joiners t p h P items)"
  by (simp add: joiners_def)

lemma joiners_insert:
  "q \<notin> fst ` set items \<Longrightarrow> joiners t p h (insert q P) items = joiners t p h P items"
  unfolding joiners_def
  by (rule arg_cong[where f="map fst"], rule filter_cong) (auto simp: image_iff)

lemma inner_loop_joiners:
  "distinct (map fst items) \<Longrightarrow>
   inner_loop t p h items (g, P) = (g @ joiners t p h P items, P \<union> set (joiners t p h P items))"
proof (induction items arbitrary: g P)
  case Nil
  then show ?case by (simp add: joiners_Nil)
next
  case (Cons a items)
  obtain q hq where a: "a = (q, hq)" by (cases a)
  from Cons.prems a have nq: "q \<notin> fst ` set items" and d: "distinct (map fst items)"
    by auto
  show ?case
  proof (cases "q \<notin> P \<and> q \<noteq> p \<and> join_condition t h hq")
    case True
    then show ?thesis
      using Cons.IH[OF d, of "g @ [q]" "insert q P"] joiners_insert[OF nq, of t p h P]
      by (auto simp: a joiners_Cons)
  next
    case False
    then show ?thesis
      using Cons.IH[OF d, of g P]
      by (auto simp: a joiners_Cons)
  qed
qed

lemma joiners_subset: "set (joiners t p h P items) \<subseteq> fst ` set items - P"
  by (auto simp: joiners_def)

lemma hash_loop_distinct:
  "distinct (map fst d) \<Longrightarrow> distinct (map fst (hash_loop env fs d))"
  by (induction fs arbitrary: d) (auto simp: dict_set_distinct split: option.splits)

lemma outer_loop_inv:
  assumes "distinct (map fst items)"
    and "sorted_wrt disjoint_lists Gs" and "\<forall>g \<in> set Gs. set g \<subseteq> P \<and> 1 < length g"
    and "outer_loop t items todo (Gs, P) = (Gs', P')"
  shows "sorted_wrt disjoint_lists Gs' \<and> (\<forall>g \<in> set Gs'. set g \<subseteq> P' \<and> 1 < length g)"
  using assms(2-)
proof (induction todo arbitrary: Gs P)
  case Nil
  then show ?case by auto
next
  case (Cons a todo)
  obtain p h where a: "a = (p, h)" by (cases a)
  show ?case
  proof (cases "p \<in> P")
    case True
    with Cons.prems a have "outer_loop t items todo (Gs, P) = (Gs', P')" by simp
    from Cons.IH[OF Cons.prems(1,2) this] show ?thesis .
  next
    case False
    define J where "J = joiners t p h (insert p P) items"
    define g where "g = p # J"
    define P1 where "P1 = insert p P \<union> set J"
    have il: "inner_loop t p h items ([p], insert p P) = (g, P1)"
      using inner_loop_joiners[OF assms(1), of t p h "[p]" "insert p P"]
      by (simp add: g_def P1_def J_def)
    have Jd: "set J \<inter> insert p P = {}"
      using joiners_subset[of t p h "insert p P" items] unfolding J_def by blast
    have gP: "set g \<inter> P = {}" using Jd False by (auto simp: g_def)
    define Gs1 where "Gs1 = (if 1 < length g then Gs @ [g] else Gs)"
    have step: "outer_loop t items todo (Gs1, P1) = (Gs', P')"
      using Cons.prems(3) False il by (simp add: a Gs1_def)
    have s1: "sorted_wrt disjoint_lists Gs1"
    proof (cases "1 < length g")
      case True
      have "\<forall>x \<in> set Gs. disjoint_lists x g"
        using Cons.prems(2) gP unfolding disjoint_lists_def by blast
      with True Cons.prems(1) show ?thesis
        by (simp add: Gs1_def sorted_wrt_append)
    next
      case False
      with Cons.prems(1) show ?thesis by (simp add: Gs1_def)
    qed
    have s2: "\<forall>g \<in> set Gs1. set g \<subseteq> P1 \<and> 1 < length g"
      using Cons.prems(2) by (auto simp: Gs1_def P1_def g_def)
    from Cons.IH[OF s1 s2 step] show ?thesis .
  qed
qed

lemma dict_set_set: "set (dict_set d k v) \<subseteq> insert (k, v) (set d)"
  by (induction d) (auto split: if_splits)

lemma dict_append_inv:
  assumes "md5_inv env d" and "calculate_md5_hash env f = Some k"
  shows "md5_inv env (dict_append d k f)"
proof -
  define old where "old = (case dict_get d k of None \<Rightarrow> [] | Some xs \<Rightarrow> xs)"
  have old: "\<forall>x \<in> set old. calculate_md5_hash env x = Some k"
  proof (cases "map_of d k")
    case None
    then show ?thesis by (simp add: old_def dict_get_def)
  next
    case (Some xs)
    then have "(k, xs) \<in> set d" by (rule map_of_SomeD)
    with assms(1) have "\<forall>x \<in> set xs. calculate_md5_hash env x = Some k"
      unfolding md5_inv_def by force
    with Some show ?thesis by (simp add: old_def dict_get_def)
  qed
  have "\<forall>e \<in> set (dict_set d k (old @ [f])).
          \<forall>x \<in> set (snd e). calculate_md5_hash env x = Some (fst e)"
  proof
    fix e assume "e \<in> set (dict_set d k (old @ [f]))"
    with dict_set_set[of d k "old @ [f]"] have "e = (k, old @ [f]) \<or> e \<in> set d" by blast
    then show "\<forall>x \<in> set (snd e). calculate_md5_hash env x = Some (fst e)"
      using old assms unfolding md5_inv_def by auto
  qed
  moreover have "distinct (map fst (dict_set d k (old @ [f])))"
    using assms(1) unfolding md5_inv_def by (simp add: dict_set_distinct)
  ultimately show ?thesis
    unfolding md5_inv_def dict_append_def old_def by simp
qed

lemma md5_loop_inv: "md5_inv env d \<Longrightarrow> md5_inv env (md5_loop env fs d)"
  by (induction fs arbitrary: d) (auto simp: dict_append_inv split: option.splits)

lemma md5_inv_disj: "md5_inv env d \<Longrightarrow> sorted_wrt (\<lambda>a b. disjoint_lists (snd a) (snd b)) d"
proof (induction d)
  case Nil
  then show ?case by simp
next
  case (Cons a d)
  from Cons.prems have inv: "md5_inv env d" unfolding md5_inv_def by simp
  have "\<forall>b \<in> set d. disjoint_lists (snd a) (snd b)"
  proof
    fix b assume b: "b \<in> set d"
    with Cons.prems have ne: "fst a \<noteq> fst b" unfolding md5_inv_def by force
    show "disjoint_lists (snd a) (snd b)"
      unfolding disjoint_lists_def
    proof (rule ccontr)
      assume "set (snd a) \<inter> set (snd b) \<noteq> {}"
      then obtain f where "f \<in> set (snd a)" "f \<in> set (snd b)" by blast
      with Cons.prems b have "calculate_md5_hash env f = Some (fst a)"
        "calculate_md5_hash env f = Some (fst b)"
        unfolding md5_inv_def by auto
      with ne show False by simp
    qed
  qed
  with Cons.IH[OF inv] show ?case by simp
qed

lemma exact_groups_alt:
  "exact_groups env fs = filter (\<lambda>g. 1 < length g) (map snd (md5_loop env fs []))"
  unfolding exact_groups_def exact_duplicates_def
  by (simp add: filter_map comp_def case_prod_unfold)

lemma exact_groups_disj: "sorted_wrt disjoint_lists (exact_groups env fs)"
proof -
  have "md5_inv env (md5_loop env fs [])"
    by (rule md5_loop_inv) (simp add: md5_inv_def)
  then have "sorted_wrt disjoint_lists (map snd (md5_loop env fs []))"
    by (simp add: sorted_wrt_map md5_inv_disj)
  then show ?thesis
    unfolding exact_groups_alt by (rule sorted_wrt_filter)
qed

lemma exact_groups_long: "\<forall>g \<in> set (exact_groups env fs). 1 < length g"
  unfolding exact_groups_alt by simp

lemma exact_files_of_groups:
  "exact_files_of (exact_duplicates env fs) = \<Union> (set ` set (exact_groups env fs))"
  unfolding exact_files_of_def exact_groups_def by simp

lemma similar_groups_inv:
  "sorted_wrt disjoint_lists (similar_groups_of self env fs) \<and>
   (\<forall>g \<in> set (similar_groups_of self env fs). 1 < length g)"
proof -
  define items where "items = hash_loop env fs []"
  have d: "distinct (map fst items)"
    unfolding items_def by (rule hash_loop_distinct) simp
  obtain Gs P where o: "outer_loop (hash_threshold self) items items ([], {}) = (Gs, P)"
    by (cases "outer_loop (hash_threshold self) items items ([], {})")
  from outer_loop_inv[OF d _ _ o] have "sorted_wrt disjoint_lists Gs \<and> (\<forall>g \<in> set Gs. 1 < length g)"
    by simp
  with o show ?thesis
    unfolding similar_groups_of_def items_def[symmetric] Let_def by simp
qed

lemma group_key_inj: "group_key i = group_key j \<Longrightarrow> i = j"
  unfolding group_key_def by (simp add: str_nat_inj)

lemma keyed_keys: "map fst (keyed gs) = map group_key [0..<length gs]"
  unfolding keyed_def
  by (simp add: comp_def case_prod_unfold flip: map_map[of group_key fst, unfolded comp_def])

lemma keyed_snoc: "keyed (gs @ [g]) = keyed gs @ [(group_key (length gs), g)]"
  unfolding keyed_def by (simp add: enumerate_append_eq)

lemma dict_set_keyed: "dict_set (keyed gs) (group_key (length gs)) g = keyed (gs @ [g])"
proof -
  have "group_key (length gs) \<notin> fst ` set (keyed gs)"
  proof
    assume "group_key (length gs) \<in> fst ` set (keyed gs)"
    then have "group_key (length gs) \<in> set (map fst (keyed gs))" by simp
    then obtain i where "i < length gs" "group_key i = group_key (length gs)"
      unfolding keyed_keys by auto
    then show False using group_key_inj by blast
  qed
  then show ?thesis by (simp add: dict_set_fresh keyed_snoc)
qed

lemma exact_combine_keyed:
  "exact_combine env ex (keyed gs, length gs) =
     (keyed (gs @ map (mk_exact env) (map snd ex)), length gs + length ex)"
proof (induction ex arbitrary: gs)
  case Nil
  then show ?case by simp
next
  case (Cons a ex)
  obtain k fs where a: "a = (k, fs)" by (cases a)
  show ?case
    using Cons.IH[of "gs @ [mk_exact env fs]"]
    by (simp add: a dict_set_keyed mk_exact_def)
qed

lemma similar_combine_keyed:
  "similar_combine env X sg (keyed gs, length gs) =
     (keyed (gs @ map (mk_similar env) (filter (\<lambda>g. \<not> (\<exists>f \<in> set g. f \<in> X)) sg)),
      length gs + length (filter (\<lambda>g. \<not> (\<exists>f \<in> set g. f \<in> X)) sg))"
proof (induction sg arbitrary: gs)
  case Nil
  then show ?case by simp
next
  case (Cons g sg)
  show ?case
  proof (cases "\<exists>f \<in> set g. f \<in> X")
    case True
    then show ?thesis using Cons.IH[of gs] by simp
  next
    case False
    then show ?thesis
      using Cons.IH[of "gs @ [mk_similar env g]"]
      by (simp add: dict_set_keyed mk_similar_def)
  qed
qed

lemma find_duplicates_keyed:
  "find_duplicates self env fs =
     keyed (map (mk_exact env) (exact_groups env fs) @ map (mk_similar env) (kept_similar self env fs))"
proof -
  have k0: "([], 0) = (keyed [], length ([] :: group_data list))" by (simp add: keyed_def)
  show ?thesis
    unfolding find_duplicates_def Let_def k0 exact_combine_keyed
    using similar_combine_keyed[of env "exact_files_of (exact_duplicates env fs)"
        "similar_groups_of self env fs" "map (mk_exact env) (exact_groups env fs)"]
    by (simp add: exact_groups_def kept_similar_def)
qed

lemma map_snd_keyed: "map snd (keyed gs) = gs"
proof -
  have "map snd (keyed gs) = map snd (enumerate 0 gs)"
    unfolding keyed_def by (simp add: comp_def case_prod_unfold)
  then show ?thesis by simp
qed

lemma mk_exact_simps: "files (mk_exact env x) = x" "gtype (mk_exact env x) = ''exact''"
  by (simp_all add: mk_exact_def)

lemma mk_similar_simps: "files (mk_similar env x) = x" "gtype (mk_similar env x) = ''similar''"
  by (simp_all add: mk_similar_def)

lemma set_keyed: "snd ` set (keyed gs) = set gs"
  by (metis map_snd_keyed set_map)

lemma in_group_keyed:
  "in_group_of_type ty (keyed gs) f \<longleftrightarrow> (\<exists>g \<in> set gs. gtype g = ty \<and> f \<in> set (files g))"
  unfolding in_group_of_type_def using set_keyed[of gs] by force

lemma ungrouped_keyed:
  "ungrouped (keyed gs) f \<longleftrightarrow> (\<forall>g \<in> set gs. f \<notin> set (files g))"
  unfolding ungrouped_def using set_keyed[of gs] by force

lemma in_exact_iff:
  "in_group_of_type ''exact'' (find_duplicates self env fs) f \<longleftrightarrow>
     f \<in> exact_files_of (exact_duplicates env fs)"
  unfolding find_duplicates_keyed in_group_keyed exact_files_of_groups
  by (simp add: mk_exact_simps mk_similar_simps bex_Un)

lemma in_similar_iff:
  "in_group_of_type ''similar'' (find_duplicates self env fs) f \<longleftrightarrow>
     (\<exists>g \<in> set (kept_similar self env fs). f \<in> set g)"
  unfolding find_duplicates_keyed in_group_keyed
  by (simp add: mk_exact_simps mk_similar_simps bex_Un)

lemma ungrouped_iff:
  "ungrouped (find_duplicates self env fs) f \<longleftrightarrow>
     f \<notin> exact_files_of (exact_duplicates env fs) \<and>
     (\<forall>g \<in> set (kept_similar self env fs). f \<notin> set g)"
  unfolding find_duplicates_keyed ungrouped_keyed exact_files_of_groups
  by (simp add: mk_exact_simps mk_similar_simps ball_Un)

lemma kept_similar_no_exact:
  "g \<in> set (kept_similar self env fs) \<Longrightarrow> f \<in> set g \<Longrightarrow>
   f \<notin> exact_files_of (exact_duplicates env fs)"
  unfolding kept_similar_def by auto

lemma similar_part_keyed:
  "similar_part (keyed gs) = map files (filter (\<lambda>g. gtype g = ''similar'') gs)"
proof -
  have "similar_part (keyed gs) = map files (filter (\<lambda>g. gtype g = ''similar'') (map snd (keyed gs)))"
    unfolding similar_part_def by (simp add: filter_map comp_def)
  then show ?thesis by (simp add: map_snd_keyed)
qed

lemma similar_part_find_duplicates:
  "similar_part (find_duplicates self env fs) = kept_similar self env fs"
  unfolding find_duplicates_keyed similar_part_keyed
  by (simp add: filter_map comp_def mk_exact_simps mk_similar_simps)

lemma group_files_disj:
  "sorted_wrt disjoint_lists (exact_groups env fs @ kept_similar self env fs)"
proof -
  have "sorted_wrt disjoint_lists (kept_similar self env fs)"
    unfolding kept_similar_def using similar_groups_inv by (intro sorted_wrt_filter) simp
  moreover have "\<forall>a \<in> set (exact_groups env fs). \<forall>b \<in> set (kept_similar self env fs). disjoint_lists a b"
    unfolding disjoint_lists_def using kept_similar_no_exact[of _ self env fs]
    by (fastforce simp: exact_files_of_groups)
  ultimately show ?thesis
    by (simp add: sorted_wrt_append exact_groups_disj)
qed

lemma find_duplicates_files:
  "map (\<lambda>e. files (snd e)) (find_duplicates self env fs) =
     exact_groups env fs @ kept_similar self env fs"
proof -
  have "map (\<lambda>e. files (snd e)) (find_duplicates self env fs) =
        map files (map snd (find_duplicates self env fs))" by (simp add: comp_def)
  also have "\<dots> = exact_groups env fs @ kept_similar self env fs"
    unfolding find_duplicates_keyed map_snd_keyed
    by (simp add: comp_def mk_exact_simps mk_similar_simps)
  finally show ?thesis .
qed

lemma find_duplicates_keys_distinct: "distinct (map fst (find_duplicates self env fs))"
  unfolding find_duplicates_keyed keyed_keys
  by (simp add: distinct_map inj_on_def group_key_inj)

subsection \<open>The claims about \<open>find_duplicates\<close>\<close>

text \<open>
  Claim C6. The join condition of the inner loop holds exactly when at least two of the
  three hash distances are at most the threshold (the all-three disjunct adds nothing).
  The group of a seed is what the loop started with followed by the files, in dictionary
  order, that are not yet processed, differ from the seed and satisfy the condition
  against the seed's hashes: no other member of the group is consulted. Every similar
  group kept by the outer loop has more than one member, and the constructor's default
  threshold is 5.
\<close>

theorem similarity_join_rule:
  "(join_condition t h1 h2 \<longleftrightarrow>
      2 \<le> length (filter (\<lambda>d. int d \<le> t)
             [hash_diff (phash h1) (phash h2), hash_diff (dhash h1) (dhash h2),
              hash_diff (whash h1) (whash h2)])) \<and>
   fst (inner_loop t seed h (hash_loop env image_files []) (g, P)) =
     g @ map fst (filter (\<lambda>(q, hq). q \<notin> P \<and> q \<noteq> seed \<and> join_condition t h hq)
                    (hash_loop env image_files [])) \<and>
   (\<forall>grp \<in> set (similar_groups_of self env image_files). 1 < length grp) \<and>
   hash_threshold (ImageProcessor_init dirs out None cnn) = 5"
proof -
  have d: "distinct (map fst (hash_loop env image_files []))"
    by (rule hash_loop_distinct) simp
  have "fst (inner_loop t seed h (hash_loop env image_files []) (g, P)) =
          g @ joiners t seed h P (hash_loop env image_files [])"
    by (simp add: inner_loop_joiners[OF d])
  then show ?thesis
    using join_condition_majority[of t h1 h2] similar_groups_inv[of self env image_files]
    by (simp add: joiners_def ImageProcessor_init_def)
qed

theorem similarity_join_rule_witness:
  "join_condition 5 (ex_hashes 0) (ex_hashes 0x0F) \<and>
   \<not> join_condition 5 (ex_hashes 0) (ex_hashes 0xFF) \<and>
   fst (inner_loop 5 ex_A (ex_hashes 0) (hash_loop ex_env ex_files []) ([ex_A], {ex_A}))
     = [ex_A, ex_B, ex_C] \<and>
   similar_groups_of ex_self ex_env ex_files = [[ex_A, ex_B, ex_C], [ex_E, ex_F]] \<and>
   1 < length [ex_A, ex_B, ex_C] \<and> 1 < length [ex_E, ex_F] \<and>
   hash_threshold ex_self = 5"
proof -
  note T = similarity_join_rule[of 5 "ex_hashes 0" "ex_hashes 0x0F" ex_A "ex_hashes 0" ex_env
      ex_files "[ex_A]" "{ex_A}" ex_self "[[''photos'']]" None None]
  have 1: "join_condition 5 (ex_hashes 0) (ex_hashes 0x0F)" by code_simp
  have 2: "\<not> join_condition 5 (ex_hashes 0) (ex_hashes 0xFF)" by code_simp
  have 3: "fst (inner_loop 5 ex_A (ex_hashes 0) (hash_loop ex_env ex_files []) ([ex_A], {ex_A}))
     = [ex_A, ex_B, ex_C]" by code_simp
  have 4: "similar_groups_of ex_self ex_env ex_files = [[ex_A, ex_B, ex_C], [ex_E, ex_F]]"
    by code_simp
  from T[THEN conjunct2, THEN conjunct2, THEN conjunct1]
  have "\<forall>grp \<in> set (similar_groups_of ex_self ex_env ex_files). 1 < length grp" .
  then have 5: "1 < length [ex_A, ex_B, ex_C] \<and> 1 < length [ex_E, ex_F]"
    unfolding 4 by simp
  from T[THEN conjunct2, THEN conjunct2, THEN conjunct2]
  have 6: "hash_threshold ex_self = 5" by (simp only: ex_self_def)
  from 1 2 3 4 5 6 show ?thesis by (simp only: simp_thms)
qed

text \<open>
  Claim C5. The keys of the returned mapping are distinct, two different returned groups
  share no file, and every file is in exactly one of: an exact group, a similar group,
  no group.
\<close>

theorem find_duplicates_partition:
  "(let R = find_duplicates self env image_files in
      distinct (map fst R) \<and>
      (\<forall>i < length R. \<forall>j < length R. i \<noteq> j \<longrightarrow>
         set (files (snd (R ! i))) \<inter> set (files (snd (R ! j))) = {}) \<and>
      (\<forall>f. exactly_one (in_group_of_type ''exact'' R f) (in_group_of_type ''similar'' R f)
              (ungrouped R f)))"
proof -
  define R where "R = find_duplicates self env image_files"
  define Fs where "Fs = map (\<lambda>e. files (snd e)) R"
  have s: "sorted_wrt disjoint_lists Fs"
    unfolding Fs_def R_def find_duplicates_files by (rule group_files_disj)
  have len: "length Fs = length R" by (simp add: Fs_def)
  have nth: "\<And>i. i < length R \<Longrightarrow> Fs ! i = files (snd (R ! i))" by (simp add: Fs_def)
  have lt: "\<And>i j. i < j \<Longrightarrow> j < length R \<Longrightarrow> disjoint_lists (Fs ! i) (Fs ! j)"
    using s len by (simp add: sorted_wrt_iff_nth_less)
  have pd: "\<forall>i < length R. \<forall>j < length R. i \<noteq> j \<longrightarrow>
         set (files (snd (R ! i))) \<inter> set (files (snd (R ! j))) = {}"
  proof (intro allI impI)
    fix i j assume ij: "i < length R" "j < length R" "i \<noteq> j"
    then consider "i < j" | "j < i" by linarith
    then show "set (files (snd (R ! i))) \<inter> set (files (snd (R ! j))) = {}"
    proof cases
      case 1
      from lt[OF 1 ij(2)] show ?thesis using nth ij by (simp add: disjoint_lists_def)
    next
      case 2
      from lt[OF 2 ij(1)] show ?thesis using nth ij by (auto simp: disjoint_lists_def)
    qed
  qed
  have ex: "\<forall>f. exactly_one (in_group_of_type ''exact'' R f) (in_group_of_type ''similar'' R f)
              (ungrouped R f)"
  proof
    fix f
    show "exactly_one (in_group_of_type ''exact'' R f) (in_group_of_type ''similar'' R f)
              (ungrouped R f)"
    proof (cases "f \<in> exact_files_of (exact_duplicates env image_files)")
      case True
      then have "\<not> (\<exists>g \<in> set (kept_similar self env image_files). f \<in> set g)"
        using kept_similar_no_exact[of _ self env image_files f] by blast
      with True show ?thesis
        unfolding R_def in_exact_iff in_similar_iff ungrouped_iff exactly_one_def by simp
    next
      case False
      then show ?thesis
        unfolding R_def in_exact_iff in_similar_iff ungrouped_iff exactly_one_def by blast
    qed
  qed
  show ?thesis
    unfolding Let_def R_def[symmetric]
    using pd ex find_duplicates_keys_distinct[of self env image_files] by (simp add: R_def)
qed

theorem find_duplicates_partition_witness:
  "map (\<lambda>e. (fst e, files (snd e), gtype (snd e))) (find_duplicates ex_self ex_env ex_files) =
     [(''group_0'', [ex_A, ex_B], ''exact''), (''group_1'', [ex_E, ex_F], ''similar'')] \<and>
   set [ex_A, ex_B] \<inter> set [ex_E, ex_F] = {} \<and>
   in_group_of_type ''exact'' (find_duplicates ex_self ex_env ex_files) ex_A \<and>
   \<not> in_group_of_type ''similar'' (find_duplicates ex_self ex_env ex_files) ex_A \<and>
   \<not> ungrouped (find_duplicates ex_self ex_env ex_files) ex_A"
proof -
  define R where "R = find_duplicates ex_self ex_env ex_files"
  have R: "map (\<lambda>e. (fst e, files (snd e), gtype (snd e))) R =
     [(''group_0'', [ex_A, ex_B], ''exact''), (''group_1'', [ex_E, ex_F], ''similar'')]"
    unfolding R_def by code_simp
  have "length (map (\<lambda>e. (fst e, files (snd e), gtype (snd e))) R) = 2"
    by (simp only: R) simp
  then have len: "length R = 2" by simp
  have "map (\<lambda>e. (fst e, files (snd e), gtype (snd e))) R ! 0 = (''group_0'', [ex_A, ex_B], ''exact'')"
    "map (\<lambda>e. (fst e, files (snd e), gtype (snd e))) R ! 1 = (''group_1'', [ex_E, ex_F], ''similar'')"
    by (simp_all only: R) simp_all
  then have f0: "files (snd (R ! 0)) = [ex_A, ex_B]" and f1: "files (snd (R ! 1)) = [ex_E, ex_F]"
    using len by simp_all
  note T = find_duplicates_partition[of ex_self ex_env ex_files, unfolded Let_def, folded R_def]
  from T[THEN conjunct2, THEN conjunct1] len
  have "set (files (snd (R ! 0))) \<inter> set (files (snd (R ! 1))) = {}" by simp
  then have d: "set [ex_A, ex_B] \<inter> set [ex_E, ex_F] = {}" by (simp only: f0 f1)
  have a: "in_group_of_type ''exact'' R ex_A" unfolding R_def by code_simp
  from T[THEN conjunct2, THEN conjunct2] have "exactly_one (in_group_of_type ''exact'' R ex_A)
      (in_group_of_type ''similar'' R ex_A) (ungrouped R ex_A)" by (rule spec)
  with a have "\<not> in_group_of_type ''similar'' R ex_A \<and> \<not> ungrouped R ex_A"
    by (auto simp: exactly_one_def)
  with R d a show ?thesis unfolding R_def by simp
qed

text \<open>
  Claim C1 as stated fails: the greedy pass runs over every file that has hashes, the
  files of exact groups included. In the example \<open>a.jpg\<close> seeds a group that absorbs
  \<open>c.jpg\<close>; that group is dropped afterwards, and \<open>c.jpg\<close> is no longer free to form a
  group with \<open>d.jpg\<close>. Run on the files outside the exact group alone, the scan reports
  the similar group of \<open>c.jpg\<close> and \<open>d.jpg\<close>.
\<close>

theorem exact_files_influence_counterexample:
  "\<not> (similar_part (find_duplicates ex_self ex_env [ex_A, ex_B, ex_C, ex_D]) =
       similar_part (find_duplicates ex_self ex_env
                       (without_exact ex_self ex_env [ex_A, ex_B, ex_C, ex_D])))"
  by code_simp

text \<open>
  Claim C1, amended. The returned similar groups are the groups of the greedy pass over
  all hashed files, minus every group that contains a file of an exact group; so each
  returned similar group consists solely of files that are in no exact group.
\<close>

theorem similar_groups_drop_exact_files:
  "(let R = find_duplicates self env image_files;
        exact_files = exact_files_of (exact_duplicates env image_files) in
      similar_part R =
        filter (\<lambda>grp. \<not> (\<exists>f \<in> set grp. f \<in> exact_files))
          (similar_groups_of self env image_files) \<and>
      (\<forall>f. in_group_of_type ''exact'' R f \<longleftrightarrow> f \<in> exact_files) \<and>
      (\<forall>grp \<in> set (similar_part R). \<forall>f \<in> set grp. \<not> in_group_of_type ''exact'' R f))"
proof -
  have "\<forall>grp \<in> set (kept_similar self env image_files). \<forall>f \<in> set grp.
          f \<notin> exact_files_of (exact_duplicates env image_files)"
    using kept_similar_no_exact[of _ self env image_files] by blast
  then show ?thesis
    unfolding Let_def similar_part_find_duplicates in_exact_iff
    by (simp add: kept_similar_def)
qed

theorem similar_groups_drop_exact_files_witness:
  "similar_part (find_duplicates ex_self ex_env ex_files) = [[ex_E, ex_F]] \<and>
   similar_groups_of ex_self ex_env ex_files = [[ex_A, ex_B, ex_C], [ex_E, ex_F]] \<and>
   exact_files_of (exact_duplicates ex_env ex_files) = {ex_A, ex_B} \<and>
   \<not> in_group_of_type ''exact'' (find_duplicates ex_self ex_env ex_files) ex_E \<and>
   \<not> in_group_of_type ''exact'' (find_duplicates ex_self ex_env ex_files) ex_F"
proof -
  note T = similar_groups_drop_exact_files[of ex_self ex_env ex_files, unfolded Let_def]
  have 1: "similar_groups_of ex_self ex_env ex_files = [[ex_A, ex_B, ex_C], [ex_E, ex_F]]"
    by code_simp
  have 2: "exact_files_of (exact_duplicates ex_env ex_files) = {ex_A, ex_B}"
    by code_simp
  have 3: "similar_part (find_duplicates ex_self ex_env ex_files) = [[ex_E, ex_F]]"
    by code_simp
  from T[THEN conjunct2, THEN conjunct2]
  have "\<forall>f \<in> set [ex_E, ex_F]. \<not> in_group_of_type ''exact'' (find_duplicates ex_self ex_env ex_files) f"
    unfolding 3 by simp
  then have "\<not> in_group_of_type ''exact'' (find_duplicates ex_self ex_env ex_files) ex_E"
    "\<not> in_group_of_type ''exact'' (find_duplicates ex_self ex_env ex_files) ex_F"
    by simp_all
  with 1 2 3 show ?thesis by (simp only: simp_thms)
qed

section \<open>The file system\<close>

text \<open>
  The state the program shares with the operating system: a finite table from paths to
  nodes, read with \<open>map_of\<close> (the first entry of a path is the current one). The root
  \<open>[]\<close> is always a directory. A regular file holds its bytes; its \<open>st_size\<close> is their
  number. The size the operating system reports for a directory is platform-specific and
  is taken as 0; \<open>find_duplicates\<close> never puts a directory into a group, since a
  directory has neither a digest nor hashes.
\<close>

datatype node = File string | Dir

type_synonym filesystem = "(path \<times> node) list"

text \<open>
  The exceptions of pathlib, os and shutil, and the ones raised inside the image and
  face libraries (\<open>LibraryError\<close>, with the library's message). The program catches them
  as \<open>Exception\<close> and reads only \<open>str(e)\<close>.
\<close>

datatype error =
    FileExistsError path
  | FileNotFoundError path
  | NotADirectoryError path
  | IsADirectoryError path
  | SameFileError path
  | ShutilError path
  | TypeError string
  | LibraryError string

fun path_str :: "path \<Rightarrow> string" where
  "path_str [] = ''.''"
| "path_str [c] = c"
| "path_str (c # cs) = c @ ''/'' @ path_str cs"

fun str_error :: "error \<Rightarrow> string" where
  "str_error (FileExistsError p) = ''[Errno 17] File exists: '' @ path_str p"
| "str_error (FileNotFoundError p) = ''[Errno 2] No such src or directory: '' @ path_str p"
| "str_error (NotADirectoryError p) = ''[Errno 20] Not a directory: '' @ path_str p"
| "str_error (IsADirectoryError p) = ''[Errno 21] Is a directory: '' @ path_str p"
| "str_error (SameFileError p) = path_str p @ '' and '' @ path_str p @ '' are the same src''"
| "str_error (ShutilError p) = ''Destination path '' @ path_str p @ '' already exists''"
| "str_error (TypeError m) = m"
| "str_error (LibraryError m) = m"

text \<open>\<open>Path.exists\<close>, \<open>Path.is_dir\<close> and \<open>Path.stat().st_size\<close>.\<close>

definition fs_lookup :: "filesystem \<Rightarrow> path \<Rightarrow> node option" where
  "fs_lookup fs p = (if p = [] then Some Dir else map_of fs p)"

definition path_exists :: "filesystem \<Rightarrow> path \<Rightarrow> bool" where
  "path_exists fs p = (fs_lookup fs p \<noteq> None)"

definition is_dir :: "filesystem \<Rightarrow> path \<Rightarrow> bool" where
  "is_dir fs p = (fs_lookup fs p = Some Dir)"

definition st_size :: "filesystem \<Rightarrow> path \<Rightarrow> nat" where
  "st_size fs p = (case fs_lookup fs p of Some (File c) \<Rightarrow> length c | _ \<Rightarrow> 0)"

definition fs_remove :: "filesystem \<Rightarrow> path \<Rightarrow> filesystem" where
  "fs_remove fs p = filter (\<lambda>e. fst e \<noteq> p) fs"

text \<open>
  \<open>Path.mkdir(exist_ok=True)\<close>: nothing to do on an existing directory, an error on an
  existing file or a missing parent. With \<open>parents=True\<close> every missing ancestor is
  created first, outermost first.
\<close>

definition mkdir_exist_ok :: "filesystem \<Rightarrow> path \<Rightarrow> error + filesystem" where
  "mkdir_exist_ok fs p =
     (case fs_lookup fs p of
        Some Dir \<Rightarrow> Inr fs
      | Some (File c) \<Rightarrow> Inl (FileExistsError p)
      | None \<Rightarrow>
          (case fs_lookup fs (butlast p) of
             None \<Rightarrow> Inl (FileNotFoundError p)
           | Some (File c) \<Rightarrow> Inl (NotADirectoryError p)
           | Some Dir \<Rightarrow> Inr ((p, Dir) # fs)))"

fun mkdir_chain :: "filesystem \<Rightarrow> path list \<Rightarrow> error + filesystem" where
  "mkdir_chain fs [] = Inr fs"
| "mkdir_chain fs (p # ps) =
     (case mkdir_exist_ok fs p of Inl e \<Rightarrow> Inl e | Inr fs' \<Rightarrow> mkdir_chain fs' ps)"

definition mkdir_parents :: "filesystem \<Rightarrow> path \<Rightarrow> error + filesystem" where
  "mkdir_parents fs p = mkdir_chain fs (map (\<lambda>n. take n p) [1..<Suc (length p)])"

text \<open>
  \<open>shutil.copy2(src, dst)\<close> copies a regular file; onto an existing file it replaces the
  content, into an existing directory it writes under the source's name.
\<close>

definition copy2 :: "filesystem \<Rightarrow> path \<Rightarrow> path \<Rightarrow> error + filesystem" where
  "copy2 fs src dst =
     (case fs_lookup fs src of
        None \<Rightarrow> Inl (FileNotFoundError src)
      | Some Dir \<Rightarrow> Inl (IsADirectoryError src)
      | Some (File c) \<Rightarrow>
          (let target = (if is_dir fs dst then path_join dst (path_name src) else dst)
           in if target = src then Inl (SameFileError src)
              else if is_dir fs target then Inl (IsADirectoryError target)
              else if is_dir fs (butlast target) then Inr ((target, File c) # fs)
              else Inl (FileNotFoundError target)))"

text \<open>\<open>Path.unlink\<close> removes a regular file.\<close>

definition unlink :: "filesystem \<Rightarrow> path \<Rightarrow> error + filesystem" where
  "unlink fs p =
     (case fs_lookup fs p of
        None \<Rightarrow> Inl (FileNotFoundError p)
      | Some Dir \<Rightarrow> Inl (IsADirectoryError p)
      | Some (File c) \<Rightarrow> Inr (fs_remove fs p))"

text \<open>
  \<open>shutil.move(src, dst)\<close> renames; a directory moves with everything below it. Renaming
  a regular file onto an existing regular file replaces that file (POSIX). When the
  rename fails, shutil falls back to copying, which fails on the same conditions.
\<close>

definition rename_tree :: "filesystem \<Rightarrow> path \<Rightarrow> path \<Rightarrow> filesystem" where
  "rename_tree fs src dst =
     map (\<lambda>(q, n). if prefix src q then (dst @ drop (length src) q, n) else (q, n)) fs"

definition os_rename :: "filesystem \<Rightarrow> path \<Rightarrow> path \<Rightarrow> error + filesystem" where
  "os_rename fs src dst =
     (case fs_lookup fs src of
        None \<Rightarrow> Inl (FileNotFoundError src)
      | Some (File c) \<Rightarrow>
          if is_dir fs dst then Inl (IsADirectoryError dst)
          else if is_dir fs (butlast dst) then Inr ((dst, File c) # fs_remove fs src)
          else Inl (FileNotFoundError dst)
      | Some Dir \<Rightarrow>
          if path_exists fs dst then Inl (FileExistsError dst)
          else if prefix src dst then Inl (ShutilError dst)
          else if is_dir fs (butlast dst) then Inr (rename_tree fs src dst)
          else Inl (FileNotFoundError dst))"

definition move :: "filesystem \<Rightarrow> path \<Rightarrow> path \<Rightarrow> error + filesystem" where
  "move fs src dst =
     (let real_dst = (if is_dir fs dst then path_join dst (path_name src) else dst)
      in if is_dir fs dst \<and> path_exists fs real_dst then Inl (ShutilError real_dst)
         else os_rename fs src real_dst)"

subsection \<open>Collision-free destination names\<close>

text \<open>
  Both writers run the same loop:
  \<^verbatim>\<open>counter = 1
  while dest.exists():
      dest = folder / f"{stem}_{counter}{suffix}"
      counter += 1\<close>
  It terminates because the table is finite and the numbered names are pairwise
  different.
\<close>

definition numbered_name :: "path \<Rightarrow> nat \<Rightarrow> string" where
  "numbered_name src counter =
     path_stem src @ ''_'' @ str_nat counter @ path_suffix src"

lemma numbered_name_inj: "numbered_name f i = numbered_name f j \<Longrightarrow> i = j"
  unfolding numbered_name_def by (simp add: str_nat_inj)

lemma numbered_name_nonempty: "numbered_name f i \<noteq> []"
  unfolding numbered_name_def by simp

lemma path_join_numbered:
  "path_join folder (numbered_name src k) = folder @ [numbered_name src k]"
  by (simp add: path_join_def numbered_name_nonempty)

lemma finite_taken:
  "finite {k. path_exists fs (path_join folder (numbered_name src k))}"
proof -
  have inj: "inj (\<lambda>k. path_join folder (numbered_name src k))"
    by (auto simp: inj_def path_join_numbered dest: numbered_name_inj)
  have "{k. path_exists fs (path_join folder (numbered_name src k))}
          \<subseteq> (\<lambda>k. path_join folder (numbered_name src k)) -` set (map fst fs)"
  proof
    fix k assume "k \<in> {k. path_exists fs (path_join folder (numbered_name src k))}"
    then obtain n where "map_of fs (folder @ [numbered_name src k]) = Some n"
      by (auto simp: path_exists_def fs_lookup_def path_join_numbered)
    then have "(folder @ [numbered_name src k], n) \<in> set fs" by (rule map_of_SomeD)
    then have "folder @ [numbered_name src k] \<in> fst ` set fs" by force
    then show "k \<in> (\<lambda>k. path_join folder (numbered_name src k)) -` set (map fst fs)"
      by (simp add: path_join_numbered)
  qed
  moreover have "finite ((\<lambda>k. path_join folder (numbered_name src k)) -` set (map fst fs))"
    by (rule finite_vimageI[OF _ inj]) simp
  ultimately show ?thesis by (rule finite_subset)
qed

function free_dest :: "filesystem \<Rightarrow> path \<Rightarrow> path \<Rightarrow> path \<Rightarrow> nat \<Rightarrow> path" where
  "free_dest fs folder src dest counter =
     (if path_exists fs dest
      then free_dest fs folder src (path_join folder (numbered_name src counter)) (counter + 1)
      else dest)"
  by pat_completeness auto
termination
proof (relation "measure (\<lambda>(fs, folder, src, dest, counter).
          2 * card {k. counter \<le> k \<and> path_exists fs (path_join folder (numbered_name src k))}
          + (if path_exists fs dest then 1 else 0))", goal_cases)
  case 1
  show ?case by simp
next
  case (2 fs folder src dest counter)
  let ?E = "\<lambda>k. path_exists fs (path_join folder (numbered_name src k))"
  have fin: "finite {k. counter + 1 \<le> k \<and> ?E k}"
    by (rule finite_subset[OF _ finite_taken[of fs folder src]]) auto
  show ?case
  proof (cases "?E counter")
    case True
    have "{k. counter \<le> k \<and> ?E k} = insert counter {k. counter + 1 \<le> k \<and> ?E k}"
      using True by (auto simp: le_less Suc_le_eq)
    then have "card {k. counter \<le> k \<and> ?E k} = Suc (card {k. counter + 1 \<le> k \<and> ?E k})"
      using fin by simp
    with 2 True show ?thesis by simp
  next
    case False
    have "{k. counter \<le> k \<and> ?E k} = {k. counter + 1 \<le> k \<and> ?E k}"
      using False by (auto simp: le_less Suc_le_eq)
    with 2 False show ?thesis by simp
  qed
qed

declare free_dest.simps [simp del]

section \<open>Face clustering\<close>

text \<open>
  The \<open>face_recognition\<close> library is a parameter: what loading, detection and encoding
  return or raise for each input, and the distance between two encodings.
  \<open>compare_faces\<close> is the library's one-liner \<open>face_distance(...) <= tolerance\<close>.
  \<open>blank_image\<close> is the all-zero test image of \<open>organize_images\<close>. Console output and
  the two attributes that only throttle it (\<open>_detection_count\<close>, \<open>_error_logged\<close>) are
  not modelled.
\<close>

type_synonym face_location = "int \<times> int \<times> int \<times> int"

record 'img face_env =
  load_image_file :: "path \<Rightarrow> error + 'img"
  face_locations :: "'img \<Rightarrow> string \<Rightarrow> nat \<Rightarrow> error + face_location list"
  face_encodings :: "'img \<Rightarrow> face_location \<Rightarrow> error + real list list"
  face_distance :: "real list \<Rightarrow> real list \<Rightarrow> real"
  blank_image :: 'img
  dlib_importable :: bool

text \<open>
  \<open>detect_faces\<close>: the body of the \<open>try\<close>, then the handler that turns every exception
  into \<open>([], None)\<close>.
\<close>

definition detect_faces_body ::
  "'img face_env \<Rightarrow> processor \<Rightarrow> path \<Rightarrow> error + (face_location list \<times> 'img option)" where
  "detect_faces_body env self image_path =
     (case load_image_file env image_path of
        Inl e \<Rightarrow> Inl e
      | Inr img \<Rightarrow>
          (case face_locations env img (face_model self) 1 of
             Inl e \<Rightarrow> Inl e
           | Inr locations1 \<Rightarrow>
               (case (if length locations1 = 0 \<and> use_cnn self
                      then face_locations env img ''hog'' 1 else Inr locations1) of
                  Inl e \<Rightarrow> Inl e
                | Inr locations2 \<Rightarrow>
                    (case (if length locations2 = 0
                           then face_locations env img ''hog'' 2 else Inr locations2) of
                       Inl e \<Rightarrow> Inl e
                     | Inr locations3 \<Rightarrow> Inr (locations3, Some img)))))"

definition detect_faces ::
  "'img face_env \<Rightarrow> processor \<Rightarrow> path \<Rightarrow> face_location list \<times> 'img option" where
  "detect_faces env self image_path =
     (case detect_faces_body env self image_path of
        Inl e \<Rightarrow> ([], None)
      | Inr r \<Rightarrow> r)"

definition get_face_encoding ::
  "'img face_env \<Rightarrow> 'img \<Rightarrow> face_location \<Rightarrow> real list option" where
  "get_face_encoding env img face_location =
     (case face_encodings env img face_location of
        Inl e \<Rightarrow> None
      | Inr encodings \<Rightarrow> (case encodings of [] \<Rightarrow> None | enc # rest \<Rightarrow> Some enc))"

definition compare_faces ::
  "'img face_env \<Rightarrow> real list list \<Rightarrow> real list \<Rightarrow> real \<Rightarrow> bool list" where
  "compare_faces env known_face_encodings face_encoding_to_check tolerance =
     map (\<lambda>known. face_distance env known face_encoding_to_check \<le> tolerance)
       known_face_encodings"

fun identify_loop ::
  "'img face_env \<Rightarrow> (string \<times> real list) list \<Rightarrow> real list \<Rightarrow> real \<Rightarrow> string option" where
  "identify_loop env [] face_encoding tolerance = None"
| "identify_loop env ((person_name, known_encoding) # rest) face_encoding tolerance =
     (if compare_faces env [known_encoding] face_encoding tolerance ! 0
      then Some person_name
      else identify_loop env rest face_encoding tolerance)"

definition identify_person ::
  "'img face_env \<Rightarrow> processor \<Rightarrow> real list \<Rightarrow> real \<Rightarrow> string option" where
  "identify_person env self face_encoding tolerance =
     identify_loop env (known_faces self) face_encoding tolerance"

text \<open>
  Lines 317 to 323 of \<open>process_image\<close>: look the encoding up with tolerance 0.5; when no
  cluster matches, increment the counter and store the encoding under the new name.
\<close>

definition person_key :: "nat \<Rightarrow> string" where
  "person_key n = ''Person_'' @ str_nat n"

definition match_or_create ::
  "'img face_env \<Rightarrow> processor \<Rightarrow> real list \<Rightarrow> string \<times> processor" where
  "match_or_create env self face_encoding =
     (case identify_person env self face_encoding (1 / 2) of
        None \<Rightarrow>
          (let self1 = self\<lparr>person_counter := person_counter self + 1\<rparr>;
               person_name = person_key (person_counter self1)
           in (person_name,
               self1\<lparr>known_faces := dict_set (known_faces self1) person_name face_encoding\<rparr>))
      | Some person_name \<Rightarrow> (person_name, self))"

text \<open>
  The loop over the detected faces. \<open>persons_in_image\<close> is a Python set, kept here as a
  list without repetitions. Nothing inside the loop body raises in this model, so the
  handler of the inner \<open>try\<close> has no branch.
\<close>

fun faces_loop ::
  "'img face_env \<Rightarrow> 'img \<Rightarrow> face_location list \<Rightarrow> processor \<times> string list \<Rightarrow>
   processor \<times> string list" where
  "faces_loop env img [] (self, persons_in_image) = (self, persons_in_image)"
| "faces_loop env img (face_location # rest) (self, persons_in_image) =
     (case get_face_encoding env img face_location of
        None \<Rightarrow> faces_loop env img rest (self, persons_in_image)
      | Some face_encoding \<Rightarrow>
          (let (person_name, self') = match_or_create env self face_encoding
           in faces_loop env img rest (self', List.insert person_name persons_in_image)))"

text \<open>
  \<open>process_image\<close> catches every exception itself; it always returns a label, written
  \<open>Inr\<close> so that the caller's handler can be modelled as written.
\<close>

definition process_image ::
  "'img face_env \<Rightarrow> processor \<Rightarrow> path \<Rightarrow> (error + string) \<times> processor" where
  "process_image env self image_path =
     (case detect_faces env self image_path of
        (locations, None) \<Rightarrow> (Inr ''Not Detected Persons'', self)
      | (locations, Some img) \<Rightarrow>
          if locations = [] then (Inr ''Not Detected Persons'', self)
          else
            (let (self', persons_in_image) = faces_loop env img locations (self, [])
             in (Inr (if length persons_in_image > 1 then ''Multiple Persons''
                      else if length persons_in_image = 1 then hd persons_in_image
                      else ''Not Detected Persons''),
                 self')))"

section \<open>\<open>organize_images\<close>\<close>

text \<open>
  A progress callback returns \<open>Some e\<close> when it raises \<open>e\<close>. The state of the loop is
  the file system, the processor and the local counters; \<open>organize_result\<close> is the
  returned dictionary.
\<close>

type_synonym progress_callback = "nat \<Rightarrow> nat \<Rightarrow> string \<Rightarrow> error option"

record organize_state =
  fs_of :: filesystem
  self_of :: processor
  processed :: nat
  errors :: "string list"
  faces_detected :: nat
  no_faces_count :: nat

record organize_result =
  res_processed :: nat
  res_total :: nat
  res_person_folders :: nat
  res_faces_detected :: nat
  res_no_faces :: nat
  res_errors :: "string list"

text \<open>The inner \<open>try\<close> that creates the folder and copies the file.\<close>

definition copy_into ::
  "filesystem \<Rightarrow> path \<Rightarrow> string \<Rightarrow> path \<Rightarrow> error option \<times> filesystem" where
  "copy_into fs out folder_name img_path =
     (let person_folder = path_join out folder_name
      in case mkdir_parents fs person_folder of
           Inl e \<Rightarrow> (Some e, fs)
         | Inr fs1 \<Rightarrow>
             (let dest_path = free_dest fs1 person_folder img_path
                                (path_join person_folder (path_name img_path)) 1
              in case copy2 fs1 img_path dest_path of
                   Inl e \<Rightarrow> (Some e, fs1)
                 | Inr fs2 \<Rightarrow> (None, fs2)))"

definition organize_step ::
  "'img face_env \<Rightarrow> progress_callback option \<Rightarrow> nat \<Rightarrow> organize_state \<Rightarrow> nat \<times> path \<Rightarrow>
   organize_state" where
  "organize_step env callback total_count st item =
     (let idx = fst item; img_path = snd item
      in case (case callback of None \<Rightarrow> None
               | Some cb \<Rightarrow> cb idx total_count (path_str img_path)) of
           Some e \<Rightarrow>
             st\<lparr> processed := processed st + 1,
                 errors := errors st @
                   [''Unexpected error processing '' @ path_name img_path @ '': '' @
                    take 100 (str_error e)],
                 no_faces_count := no_faces_count st + 1 \<rparr>
         | None \<Rightarrow>
             (let (r, self') = process_image env (self_of st) img_path;
                  (folder_name, errors1) =
                    (case r of
                       Inl e \<Rightarrow>
                         (''Not Detected Persons'',
                          errors st @
                            [''Error in process_image for '' @ path_name img_path @ '': '' @
                             take 100 (str_error e)])
                     | Inr name \<Rightarrow> (name, errors st));
                  detected = folder_name \<noteq> ''Not Detected Persons'';
                  (copy_error, fs') = copy_into (fs_of st) (output_dir self') folder_name img_path
              in \<lparr> fs_of = fs',
                   self_of = self',
                   processed = processed st + 1,
                   errors =
                     (case copy_error of
                        None \<Rightarrow> errors1
                      | Some e \<Rightarrow>
                          errors1 @
                            [''Error copying '' @ path_name img_path @ '': '' @
                             take 100 (str_error e)]),
                   faces_detected = (if detected then faces_detected st + 1 else faces_detected st),
                   no_faces_count = (if detected then no_faces_count st else no_faces_count st + 1)
                 \<rparr>))"

fun organize_loop ::
  "'img face_env \<Rightarrow> progress_callback option \<Rightarrow> nat \<Rightarrow> (nat \<times> path) list \<Rightarrow> organize_state \<Rightarrow>
   organize_state" where
  "organize_loop env callback total_count [] st = st"
| "organize_loop env callback total_count (item # rest) st =
     organize_loop env callback total_count rest (organize_step env callback total_count st item)"

text \<open>The two library checks before the loop.\<close>

definition startup_errors :: "'img face_env \<Rightarrow> string list" where
  "startup_errors env =
     (if dlib_importable env then []
      else [''dlib library not installed - face detection cannot work'']) @
     (case face_locations env (blank_image env) ''hog'' 1 of
        Inl e \<Rightarrow>
          [''face_recognition library error: face_recognition test failed: '' @
           take 200 (str_error e)]
      | Inr locations \<Rightarrow> [])"

text \<open>
  \<open>organize_images\<close> raises only when the output directory cannot be created: that call
  stands before every \<open>try\<close>.
\<close>

definition organize_images ::
  "'img face_env \<Rightarrow> progress_callback option \<Rightarrow> processor \<Rightarrow> filesystem \<Rightarrow> path list \<Rightarrow>
   error + (organize_result \<times> processor \<times> filesystem)" where
  "organize_images env callback self fs image_files =
     (case mkdir_parents fs (output_dir self) of
        Inl e \<Rightarrow> Inl e
      | Inr fs1 \<Rightarrow>
          (let total_count = length image_files;
               st = organize_loop env callback total_count (enumerate 1 image_files)
                      \<lparr> fs_of = fs1, self_of = self, processed = 0,
                        errors = startup_errors env, faces_detected = 0, no_faces_count = 0 \<rparr>
           in Inr (\<lparr> res_processed = processed st,
                      res_total = total_count,
                      res_person_folders = length (known_faces (self_of st)),
                      res_faces_detected = faces_detected st,
                      res_no_faces = no_faces_count st,
                      res_errors = errors st \<rparr>,
                   self_of st, fs_of st)))"

text \<open>
  A concrete library and file system: \<open>broken.jpg\<close> cannot be loaded, \<open>pair.jpg\<close> shows
  two faces three units apart, \<open>solo.jpg\<close> shows the first of them.
\<close>

definition fx_env :: "nat face_env" where
  "fx_env =
     \<lparr> load_image_file = (\<lambda>p. if p = [''photos'', ''broken.jpg'']
                               then Inl (LibraryError ''cannot identify image file'')
                               else if p = [''photos'', ''pair.jpg''] then Inr 2
                               else if p = [''photos'', ''solo.jpg''] then Inr 1
                               else Inr 0),
       face_locations = (\<lambda>im model ups. Inr (if im = 2 then [(0, 10, 10, 0), (0, 30, 10, 20)]
                                               else if im = 1 then [(0, 10, 10, 0)] else [])),
       face_encodings = (\<lambda>img loc. Inr [[if loc = (0, 10, 10, 0) then 0 else 3]]),
       face_distance = (\<lambda>a b. \<bar>hd a - hd b\<bar>),
       blank_image = 0,
       dlib_importable = True \<rparr>"

definition fx_fs :: filesystem where
  "fx_fs = [([''photos''], Dir), ([''photos'', ''broken.jpg''], File ''xx''),
            ([''photos'', ''pair.jpg''], File ''pp''), ([''photos'', ''solo.jpg''], File ''s'')]"

definition fx_self :: processor where
  "fx_self = ImageProcessor_init [[''photos'']] (Some [''out'']) None None"

subsection \<open>Notions for the properties of a run\<close>

definition faces_inv :: "processor \<Rightarrow> bool" where
  "faces_inv self \<longleftrightarrow>
     map fst (known_faces self) = map person_key [1..<Suc (person_counter self)]"

definition is_match :: "'img face_env \<Rightarrow> real list \<Rightarrow> real \<Rightarrow> string \<times> real list \<Rightarrow> bool" where
  "is_match env face_encoding tolerance entry \<longleftrightarrow>
     face_distance env (snd entry) face_encoding \<le> tolerance"

definition extends :: "processor \<Rightarrow> processor \<Rightarrow> bool" where
  "extends self self' \<longleftrightarrow>
     faces_inv self' \<and> prefix (known_faces self) (known_faces self') \<and>
     person_counter self \<le> person_counter self' \<and>
     output_dir self' = output_dir self \<and> use_cnn self' = use_cnn self \<and>
     source_dirs self' = source_dirs self \<and> hash_threshold self' = hash_threshold self"

definition preserves :: "filesystem \<Rightarrow> filesystem \<Rightarrow> bool" where
  "preserves fs fs' \<longleftrightarrow> (\<forall>q. path_exists fs q \<longrightarrow> fs_lookup fs' q = fs_lookup fs q)"

definition step_error :: "string \<Rightarrow> bool" where
  "step_error m \<longleftrightarrow> prefix ''Error copying '' m \<or> prefix ''Unexpected error processing '' m"




definition fx_pair :: path where "fx_pair = [''photos'', ''pair.jpg'']"


subsection \<open>Properties of a run\<close>

lemma person_key_inj: "person_key i = person_key j \<Longrightarrow> i = j"
  unfolding person_key_def by (simp add: str_nat_inj)

lemma identify_loop_find:
  "identify_loop env kf enc tol = map_option fst (find (is_match env enc tol) kf)"
  by (induction kf) (auto simp: compare_faces_def is_match_def)

lemma person_key_fresh:
  assumes "faces_inv self"
  shows "person_key (person_counter self + 1) \<notin> fst ` set (known_faces self)"
proof
  assume "person_key (person_counter self + 1) \<in> fst ` set (known_faces self)"
  then have "person_key (person_counter self + 1) \<in> set (map fst (known_faces self))" by simp
  with assms have "person_key (person_counter self + 1)
      \<in> person_key ` set [1..<Suc (person_counter self)]"
    unfolding faces_inv_def by simp
  then obtain i where "i \<in> set [1..<Suc (person_counter self)]"
    "person_key (person_counter self + 1) = person_key i" by blast
  then have "i < Suc (person_counter self)" "person_counter self + 1 = i"
    using person_key_inj[of "person_counter self + 1" i] by auto
  then show False by simp
qed

lemma match_or_create_hit:
  "find (is_match env enc (1 / 2)) (known_faces self) = Some e \<Longrightarrow>
   match_or_create env self enc = (fst e, self)"
  by (simp add: match_or_create_def identify_person_def identify_loop_find)

lemma match_or_create_miss:
  assumes "find (is_match env enc (1 / 2)) (known_faces self) = None" and "faces_inv self"
  shows "match_or_create env self enc =
     (person_key (person_counter self + 1),
      self\<lparr>person_counter := person_counter self + 1,
           known_faces := known_faces self @ [(person_key (person_counter self + 1), enc)]\<rparr>)"
  using assms(1) person_key_fresh[OF assms(2)]
  by (simp add: match_or_create_def identify_person_def identify_loop_find Let_def dict_set_fresh)

lemma extends_refl: "faces_inv self \<Longrightarrow> extends self self"
  by (simp add: extends_def)

lemma extends_trans: "extends a b \<Longrightarrow> extends b c \<Longrightarrow> extends a c"
  unfolding extends_def by (auto intro: prefix_order.trans)

lemma faces_inv_snoc:
  "faces_inv self \<Longrightarrow>
   faces_inv (self\<lparr>person_counter := person_counter self + 1,
                   known_faces := known_faces self @ [(person_key (person_counter self + 1), enc)]\<rparr>)"
  by (simp add: faces_inv_def)

lemma match_or_create_extends:
  assumes "faces_inv self"
  shows "extends self (snd (match_or_create env self enc))"
proof (cases "find (is_match env enc (1 / 2)) (known_faces self)")
  case None
  from match_or_create_miss[OF None assms] faces_inv_snoc[OF assms, of enc]
  show ?thesis by (simp add: extends_def)
next
  case (Some e)
  from match_or_create_hit[OF Some] assms show ?thesis by (simp add: extends_def)
qed

lemma faces_loop_extends:
  "faces_inv self \<Longrightarrow> extends self (fst (faces_loop env img locs (self, ps)))"
proof (induction locs arbitrary: self ps)
  case Nil
  then show ?case by (simp add: extends_refl)
next
  case (Cons loc locs)
  show ?case
  proof (cases "get_face_encoding env img loc")
    case None
    with Cons show ?thesis by simp
  next
    case (Some enc)
    obtain n s' where m: "match_or_create env self enc = (n, s')"
      by (cases "match_or_create env self enc")
    from match_or_create_extends[OF Cons.prems, of env enc] m have e: "extends self s'" by simp
    then have "faces_inv s'" by (simp add: extends_def)
    from Cons.IH[OF this, of "List.insert n ps"] e show ?thesis
      using Some m by (auto intro: extends_trans)
  qed
qed

lemma process_image_extends:
  assumes "faces_inv self"
  shows "extends self (snd (process_image env self p))"
proof -
  obtain locs im where d: "detect_faces env self p = (locs, im)"
    by (cases "detect_faces env self p")
  show ?thesis
  proof (cases im)
    case None
    with d assms show ?thesis by (simp add: process_image_def extends_refl)
  next
    case (Some img)
    show ?thesis
    proof (cases "locs = []")
      case True
      with d Some assms show ?thesis by (simp add: process_image_def extends_refl)
    next
      case False
      obtain s' ps where f: "faces_loop env img locs (self, []) = (s', ps)"
        by (cases "faces_loop env img locs (self, [])")
      from faces_loop_extends[OF assms, of env img locs "[]"] f have "extends self s'" by simp
      with d Some False f show ?thesis by (simp add: process_image_def)
    qed
  qed
qed

lemma process_image_returns: "\<exists>label. fst (process_image env self p) = Inr label"
  unfolding process_image_def
  by (auto split: prod.splits option.splits)



lemma faces_inv_init: "faces_inv (ImageProcessor_init dirs out thr cnn)"
  by (simp add: faces_inv_def ImageProcessor_init_def)

lemma preserves_refl: "preserves fs fs"
  by (simp add: preserves_def)

lemma preserves_trans: "preserves a b \<Longrightarrow> preserves b c \<Longrightarrow> preserves a c"
  unfolding preserves_def path_exists_def by metis

lemma preserves_cons: "\<not> path_exists fs p \<Longrightarrow> preserves fs ((p, n) # fs)"
  unfolding preserves_def path_exists_def fs_lookup_def by auto

lemma mkdir_exist_ok_preserves: "mkdir_exist_ok fs p = Inr fs' \<Longrightarrow> preserves fs fs'"
  unfolding mkdir_exist_ok_def
  by (auto split: option.splits node.splits simp: preserves_refl intro!: preserves_cons
      simp: path_exists_def)

lemma mkdir_chain_preserves: "mkdir_chain fs ps = Inr fs' \<Longrightarrow> preserves fs fs'"
proof (induction ps arbitrary: fs)
  case Nil
  then show ?case by (simp add: preserves_refl)
next
  case (Cons p ps)
  then obtain fs1 where 1: "mkdir_exist_ok fs p = Inr fs1" and 2: "mkdir_chain fs1 ps = Inr fs'"
    by (auto split: sum.splits)
  from mkdir_exist_ok_preserves[OF 1] Cons.IH[OF 2] show ?case by (rule preserves_trans)
qed

lemma mkdir_parents_preserves: "mkdir_parents fs p = Inr fs' \<Longrightarrow> preserves fs fs'"
  unfolding mkdir_parents_def by (rule mkdir_chain_preserves)

lemma free_dest_free: "\<not> path_exists fs (free_dest fs folder src dest counter)"
proof (induction fs folder src dest counter rule: free_dest.induct)
  case (1 fs folder src dest counter)
  then show ?case by (subst free_dest.simps) simp
qed

lemma free_dest_form:
  "free_dest fs folder src dest counter = dest \<and> \<not> path_exists fs dest \<or>
   (\<exists>k \<ge> counter. free_dest fs folder src dest counter = path_join folder (numbered_name src k)
       \<and> path_exists fs dest
       \<and> (\<forall>j. counter \<le> j \<and> j < k \<longrightarrow> path_exists fs (path_join folder (numbered_name src j))))"
proof (induction fs folder src dest counter rule: free_dest.induct)
  case (1 fs folder src dest counter)
  show ?case
  proof (cases "path_exists fs dest")
    case False
    then show ?thesis by (subst free_dest.simps) simp
  next
    case True
    let ?d = "path_join folder (numbered_name src counter)"
    have eq: "free_dest fs folder src dest counter = free_dest fs folder src ?d (counter + 1)"
      using True by (subst free_dest.simps) simp
    from "1.IH"[OF True] consider
      (a) "free_dest fs folder src ?d (counter + 1) = ?d" "\<not> path_exists fs ?d"
      | (b) k where "counter + 1 \<le> k"
          "free_dest fs folder src ?d (counter + 1) = path_join folder (numbered_name src k)"
          "path_exists fs ?d"
          "\<forall>j. counter + 1 \<le> j \<and> j < k \<longrightarrow> path_exists fs (path_join folder (numbered_name src j))"
      by blast
    then show ?thesis
    proof cases
      case a
      then show ?thesis using True eq by (intro disjI2 exI[of _ counter]) auto
    next
      case b
      have "\<forall>j. counter \<le> j \<and> j < k \<longrightarrow> path_exists fs (path_join folder (numbered_name src j))"
      proof (intro allI impI)
        fix j assume j: "counter \<le> j \<and> j < k"
        show "path_exists fs (path_join folder (numbered_name src j))"
        proof (cases "j = counter")
          case True
          with b(3) show ?thesis by simp
        next
          case False
          with j b(4) show ?thesis by simp
        qed
      qed
      with b True eq show ?thesis by (intro disjI2 exI[of _ k]) simp
    qed
  qed
qed

lemma copy2_fresh_preserves:
  "\<not> path_exists fs dst \<Longrightarrow> copy2 fs src dst = Inr fs' \<Longrightarrow> preserves fs fs'"
  unfolding copy2_def
  by (auto split: option.splits node.splits if_splits
      simp: Let_def is_dir_def path_exists_def intro!: preserves_cons[unfolded path_exists_def])

lemma copy_into_preserves: "preserves fs (snd (copy_into fs out folder_name img_path))"
proof (cases "mkdir_parents fs (path_join out folder_name)")
  case (Inl e)
  then show ?thesis by (simp add: copy_into_def preserves_refl)
next
  case (Inr fs1)
  note p1 = mkdir_parents_preserves[OF Inr]
  let ?d = "free_dest fs1 (path_join out folder_name) img_path
              (path_join (path_join out folder_name) (path_name img_path)) 1"
  show ?thesis
  proof (cases "copy2 fs1 img_path ?d")
    case (Inl e)
    with Inr p1 show ?thesis by (simp add: copy_into_def)
  next
    case c: (Inr fs2)
    from copy2_fresh_preserves[OF free_dest_free c] p1 have "preserves fs fs2"
      by (metis preserves_trans)
    with Inr c show ?thesis by (simp add: copy_into_def)
  qed
qed






lemma step_error_copy: "step_error (''Error copying '' @ m)"
  by (simp add: step_error_def)

lemma step_error_unexpected: "step_error (''Unexpected error processing '' @ m)"
  by (simp add: step_error_def)

lemma organize_step_callback_raises:
  assumes "callback = Some cb" and "cb (fst item) total_count (path_str (snd item)) = Some e"
  shows "organize_step env callback total_count st item =
     st\<lparr> processed := processed st + 1,
         errors := errors st @
           [''Unexpected error processing '' @ path_name (snd item) @ '': '' @
            take 100 (str_error e)],
         no_faces_count := no_faces_count st + 1 \<rparr>"
  using assms by (simp add: organize_step_def Let_def)

lemma organize_step_normal:
  assumes "(case callback of None \<Rightarrow> None
            | Some cb \<Rightarrow> cb (fst item) total_count (path_str (snd item))) = None"
    and "process_image env (self_of st) (snd item) = (Inr label, self')"
    and "copy_into (fs_of st) (output_dir self') label (snd item) = (copy_error, fs')"
  shows "organize_step env callback total_count st item =
     \<lparr> fs_of = fs', self_of = self', processed = processed st + 1,
       errors = (case copy_error of None \<Rightarrow> errors st
                 | Some e \<Rightarrow> errors st @
                     [''Error copying '' @ path_name (snd item) @ '': '' @ take 100 (str_error e)]),
       faces_detected = (if label \<noteq> ''Not Detected Persons'' then faces_detected st + 1
                         else faces_detected st),
       no_faces_count = (if label \<noteq> ''Not Detected Persons'' then no_faces_count st
                         else no_faces_count st + 1) \<rparr>"
  using assms by (simp add: organize_step_def Let_def)

lemma organize_step_cases:
  obtains (raises) cb e where "callback = Some cb"
      "cb (fst item) total_count (path_str (snd item)) = Some e"
  | (normal) label self' copy_error fs' where
      "(case callback of None \<Rightarrow> None
         | Some cb \<Rightarrow> cb (fst item) total_count (path_str (snd item))) = None"
      "process_image env (self_of st) (snd item) = (Inr label, self')"
      "copy_into (fs_of st) (output_dir self') label (snd item) = (copy_error, fs')"
proof (cases "(case callback of None \<Rightarrow> None
         | Some cb \<Rightarrow> cb (fst item) total_count (path_str (snd item)))")
  case None
  obtain r self' where p: "process_image env (self_of st) (snd item) = (r, self')"
    by (cases "process_image env (self_of st) (snd item)")
  with process_image_returns[of env "self_of st" "snd item"] obtain label where "r = Inr label"
    by auto
  with p have p': "process_image env (self_of st) (snd item) = (Inr label, self')" by simp
  obtain ce fs' where "copy_into (fs_of st) (output_dir self') label (snd item) = (ce, fs')"
    by (cases "copy_into (fs_of st) (output_dir self') label (snd item)")
  with None p' show ?thesis by (rule normal)
next
  case (Some e)
  then obtain cb where "callback = Some cb"
    "cb (fst item) total_count (path_str (snd item)) = Some e"
    by (cases callback) auto
  then show ?thesis by (rule raises)
qed





lemma organize_step_extends:
  assumes "faces_inv (self_of st)"
  shows "extends (self_of st) (self_of (organize_step env callback total_count st item))"
proof (cases rule: organize_step_cases[where callback=callback and item=item and total_count=total_count and env=env and st=st])
  case (raises cb e)
  show ?thesis
    unfolding organize_step_callback_raises[OF raises] using assms by (simp add: extends_refl)
next
  case (normal label self' copy_error fs')
  from process_image_extends[OF assms, of env "snd item"] normal(2)
  show ?thesis unfolding organize_step_normal[OF normal] by simp
qed

lemma organize_loop_extends:
  "faces_inv (self_of st) \<Longrightarrow>
   extends (self_of st) (self_of (organize_loop env callback total_count items st))"
proof (induction items arbitrary: st)
  case Nil
  then show ?case by (simp add: extends_refl)
next
  case (Cons item items)
  let ?s = "organize_step env callback total_count st item"
  from organize_step_extends[OF Cons.prems] have e: "extends (self_of st) (self_of ?s)" .
  then have "faces_inv (self_of ?s)" by (simp add: extends_def)
  from Cons.IH[OF this] e show ?case by (auto intro: extends_trans)
qed



subsection \<open>The claims about face clustering and \<open>organize_images\<close>\<close>




lemma person_key_not_sentinel:
  "person_key n \<noteq> ''Multiple Persons''" "person_key n \<noteq> ''Not Detected Persons''"
  by (simp_all add: person_key_def)

lemma organize_images_Inr:
  assumes "organize_images env callback self fs image_files = Inr (res, self', fs')"
  obtains fs1 where "mkdir_parents fs (output_dir self) = Inr fs1"
    and "self' = self_of (organize_loop env callback (length image_files)
            (enumerate 1 image_files)
            \<lparr> fs_of = fs1, self_of = self, processed = 0, errors = startup_errors env,
              faces_detected = 0, no_faces_count = 0 \<rparr>)"
    and "fs' = fs_of (organize_loop env callback (length image_files)
            (enumerate 1 image_files)
            \<lparr> fs_of = fs1, self_of = self, processed = 0, errors = startup_errors env,
              faces_detected = 0, no_faces_count = 0 \<rparr>)"
    and "res = (let st = organize_loop env callback (length image_files)
            (enumerate 1 image_files)
            \<lparr> fs_of = fs1, self_of = self, processed = 0, errors = startup_errors env,
              faces_detected = 0, no_faces_count = 0 \<rparr>
        in \<lparr> res_processed = processed st, res_total = length image_files,
             res_person_folders = length (known_faces (self_of st)),
             res_faces_detected = faces_detected st, res_no_faces = no_faces_count st,
             res_errors = errors st \<rparr>)"
  using assms unfolding organize_images_def
  by (auto split: sum.splits simp: Let_def)

text \<open>
  Claim C10. Started from a processor whose clusters are named \<open>Person_1 ..
  Person_counter\<close> (a new one is, with counter 0 and no cluster), \<open>organize_images\<close>
  reports as \<open>person_folders\<close> the size of \<open>known_faces\<close>, which equals
  \<open>person_counter\<close>; the names are exactly \<open>Person_1 .. Person_counter\<close>, never a
  sentinel. It is not the number of folders on disk: in the run on \<open>pair.jpg\<close> two
  persons are counted and the only folder created is \<open>Multiple Persons\<close>.
\<close>

theorem person_folders_counts_clusters:
  "(faces_inv self \<and> organize_images env callback self fs image_files = Inr (res, self', fs') \<longrightarrow>
      res_person_folders res = length (known_faces self') \<and>
      length (known_faces self') = person_counter self' \<and>
      map fst (known_faces self') = map person_key [1..<Suc (person_counter self')] \<and>
      ''Multiple Persons'' \<notin> set (map fst (known_faces self')) \<and>
      ''Not Detected Persons'' \<notin> set (map fst (known_faces self'))) \<and>
   faces_inv (ImageProcessor_init dirs out thr cnn) \<and>
   person_counter (ImageProcessor_init dirs out thr cnn) = 0 \<and>
   known_faces (ImageProcessor_init dirs out thr cnn) = [] \<and>
   (case organize_images fx_env None fx_self fx_fs [fx_pair] of
      Inl e \<Rightarrow> False
    | Inr (r, s, fs2) \<Rightarrow>
        res_person_folders r = 2 \<and> person_counter s = 2 \<and>
        path_exists fs2 (path_join (output_dir s) ''Multiple Persons'') \<and>
        \<not> path_exists fs2 (path_join (output_dir s) (person_key 1)) \<and>
        \<not> path_exists fs2 (path_join (output_dir s) (person_key 2)))"
proof -
  have general: "res_person_folders res = length (known_faces self') \<and>
      length (known_faces self') = person_counter self' \<and>
      map fst (known_faces self') = map person_key [1..<Suc (person_counter self')] \<and>
      ''Multiple Persons'' \<notin> set (map fst (known_faces self')) \<and>
      ''Not Detected Persons'' \<notin> set (map fst (known_faces self'))"
    if inv: "faces_inv self"
      and run: "organize_images env callback self fs image_files = Inr (res, self', fs')"
  proof -
    from run obtain fs1 where
      s: "self' = self_of (organize_loop env callback (length image_files)
            (enumerate 1 image_files)
            \<lparr> fs_of = fs1, self_of = self, processed = 0, errors = startup_errors env,
              faces_detected = 0, no_faces_count = 0 \<rparr>)"
      and r: "res = (let st = organize_loop env callback (length image_files)
            (enumerate 1 image_files)
            \<lparr> fs_of = fs1, self_of = self, processed = 0, errors = startup_errors env,
              faces_detected = 0, no_faces_count = 0 \<rparr>
        in \<lparr> res_processed = processed st, res_total = length image_files,
             res_person_folders = length (known_faces (self_of st)),
             res_faces_detected = faces_detected st, res_no_faces = no_faces_count st,
             res_errors = errors st \<rparr>)"
      by (rule organize_images_Inr)
    have "extends self self'"
      unfolding s
      using organize_loop_extends[of "\<lparr> fs_of = fs1, self_of = self, processed = 0,
              errors = startup_errors env, faces_detected = 0, no_faces_count = 0 \<rparr>"
          env callback "length image_files" "enumerate 1 image_files"] inv
      by simp
    then have i: "map fst (known_faces self') = map person_key [1..<Suc (person_counter self')]"
      by (simp add: extends_def faces_inv_def)
    then have "length (map fst (known_faces self'))
                 = length (map person_key [1..<Suc (person_counter self')])" by simp
    then have l: "length (known_faces self') = person_counter self'" by simp
    have n: "''Multiple Persons'' \<notin> set (map fst (known_faces self'))"
      "''Not Detected Persons'' \<notin> set (map fst (known_faces self'))"
      unfolding i using person_key_not_sentinel[symmetric] by (auto simp del: upt_Suc)
    have "res_person_folders res = length (known_faces self')"
      unfolding r s by (simp add: Let_def)
    with i l n show ?thesis by (simp only: simp_thms)
  qed
  have example: "(case organize_images fx_env None fx_self fx_fs [fx_pair] of
      Inl e \<Rightarrow> False
    | Inr (r, s, fs2) \<Rightarrow>
        res_person_folders r = 2 \<and> person_counter s = 2 \<and>
        path_exists fs2 (path_join (output_dir s) ''Multiple Persons'') \<and>
        \<not> path_exists fs2 (path_join (output_dir s) (person_key 1)) \<and>
        \<not> path_exists fs2 (path_join (output_dir s) (person_key 2)))"
    by code_simp
  have fresh: "person_counter (ImageProcessor_init dirs out thr cnn) = 0"
    "known_faces (ImageProcessor_init dirs out thr cnn) = []"
    by (simp_all add: ImageProcessor_init_def)
  from general example faces_inv_init[of dirs out thr cnn] fresh show ?thesis by blast
qed

lemma fx_pair_run:
  "organize_images fx_env None fx_self fx_fs [fx_pair] =
     Inr (\<lparr>res_processed = 1, res_total = 1, res_person_folders = 2,
            res_faces_detected = 1, res_no_faces = 0, res_errors = []\<rparr>,
          fx_self\<lparr>known_faces := [(''Person_1'', [0]), (''Person_2'', [3])],
                  person_counter := 2\<rparr>,
          [([''out'', ''Multiple Persons'', ''pair.jpg''], File ''pp''),
           ([''out'', ''Multiple Persons''], Dir), ([''out''], Dir)] @ fx_fs)"
  by code_simp

theorem person_folders_counts_clusters_witness:
  "faces_inv fx_self \<and>
   res_person_folders \<lparr>res_processed = 1, res_total = 1, res_person_folders = 2,
            res_faces_detected = 1, res_no_faces = 0, res_errors = []\<rparr>
     = length [(''Person_1'', [0 :: real]), (''Person_2'', [3])] \<and>
   map fst [(''Person_1'', [0 :: real]), (''Person_2'', [3])] = map person_key [1..<Suc 2]"
proof -
  note T = person_folders_counts_clusters[of fx_self fx_env None fx_fs "[fx_pair]"
      "\<lparr>res_processed = 1, res_total = 1, res_person_folders = 2,
            res_faces_detected = 1, res_no_faces = 0, res_errors = []\<rparr>"
      "fx_self\<lparr>known_faces := [(''Person_1'', [0]), (''Person_2'', [3])], person_counter := 2\<rparr>"
      "[([''out'', ''Multiple Persons'', ''pair.jpg''], File ''pp''),
           ([''out'', ''Multiple Persons''], Dir), ([''out''], Dir)] @ fx_fs"
      "[[''photos'']]" "Some [''out'']" None None]
  have i: "faces_inv fx_self"
    using T by (simp only: fx_self_def)
  from T[THEN conjunct1] i fx_pair_run
  have "res_person_folders \<lparr>res_processed = 1, res_total = 1, res_person_folders = 2,
            res_faces_detected = 1, res_no_faces = 0, res_errors = []\<rparr>
     = length (known_faces (fx_self\<lparr>known_faces := [(''Person_1'', [0]), (''Person_2'', [3])],
          person_counter := 2\<rparr>)) \<and>
     map fst (known_faces (fx_self\<lparr>known_faces := [(''Person_1'', [0]), (''Person_2'', [3])],
          person_counter := 2\<rparr>)) = map person_key [1..<Suc (person_counter
            (fx_self\<lparr>known_faces := [(''Person_1'', [0]), (''Person_2'', [3])],
          person_counter := 2\<rparr>))]"
    by blast
  with i show ?thesis by simp
qed




section \<open>Ranking a group, reporting and \<open>delete_duplicates\<close>\<close>

text \<open>
  \<open>list.sort(key=..., reverse=True)\<close> is stable: CPython reverses the list, sorts it
  stably in ascending order of the key and reverses it again. Tuples compare
  lexicographically.
\<close>

definition sort_reverse :: "('a \<Rightarrow> 'k :: linorder) \<Rightarrow> 'a list \<Rightarrow> 'a list" where
  "sort_reverse key xs = rev (sort_key key (rev xs))"

text \<open>\<open>f.stat().st_size if f.exists() else 0\<close>.\<close>

definition size_or_zero :: "filesystem \<Rightarrow> path \<Rightarrow> nat" where
  "size_or_zero fs f = (if path_exists fs f then st_size fs f else 0)"

subsection \<open>The report of the scan endpoint\<close>







subsection \<open>\<open>delete_duplicates\<close>\<close>

definition files_with_res_of :: "group_data \<Rightarrow> (path \<times> nat \<times> nat \<times> nat) list" where
  "files_with_res_of group_data =
     map (\<lambda>f. case dict_get (resolutions group_data) f of
                 Some (width, height, pixels) \<Rightarrow> (f, width, height, pixels)
               | None \<Rightarrow> (f, 0, 0, 0))
       (files group_data)"

definition delete_key :: "filesystem \<Rightarrow> path \<times> nat \<times> nat \<times> nat \<Rightarrow> nat \<times> nat" where
  "delete_key fs x = (snd (snd (snd x)), size_or_zero fs (fst x))"

definition delete_sorted :: "filesystem \<Rightarrow> group_data \<Rightarrow> (path \<times> nat \<times> nat \<times> nat) list" where
  "delete_sorted fs group_data = sort_reverse (delete_key fs) (files_with_res_of group_data)"

fun low_res_loop ::
  "(nat \<times> path \<times> nat \<times> nat \<times> nat) list \<Rightarrow> path list \<Rightarrow> path list" where
  "low_res_loop [] low_res_files = low_res_files"
| "low_res_loop ((idx, file_path, width, height, pixels) # rest) low_res_files =
     low_res_loop rest (if idx > 0 then low_res_files @ [file_path] else low_res_files)"

fun groups_loop :: "filesystem \<Rightarrow> (string \<times> group_data) list \<Rightarrow> path list \<Rightarrow> path list" where
  "groups_loop fs [] low_res_files = low_res_files"
| "groups_loop fs ((group_id, group_data) # rest) low_res_files =
     groups_loop fs rest
       (low_res_loop (enumerate 0 (delete_sorted fs group_data)) low_res_files)"

text \<open>
  The body of the \<open>try\<close> for one redundant file. Without a duplicates folder
  (\<open>move_to_folder\<close> with no source directory) the \<open>/\<close> on \<open>None\<close> raises a \<open>TypeError\<close>.
\<close>

definition delete_one :: "bool \<Rightarrow> path option \<Rightarrow> filesystem \<Rightarrow> path \<Rightarrow> error + filesystem" where
  "delete_one move_to_folder duplicates_folder fs dup_file =
     (if move_to_folder
      then (case duplicates_folder of
              None \<Rightarrow> Inl (TypeError ''unsupported operand type(s) for /'')
            | Some folder \<Rightarrow>
                (let dest = free_dest fs folder dup_file
                              (path_join folder (path_name dup_file)) 1
                 in move fs dup_file dest))
      else unlink fs dup_file)"

fun delete_loop ::
  "bool \<Rightarrow> path option \<Rightarrow> path list \<Rightarrow> filesystem \<times> path list \<Rightarrow> filesystem \<times> path list" where
  "delete_loop move_to_folder duplicates_folder [] (fs, deleted_files) = (fs, deleted_files)"
| "delete_loop move_to_folder duplicates_folder (dup_file # rest) (fs, deleted_files) =
     (case delete_one move_to_folder duplicates_folder fs dup_file of
        Inl e \<Rightarrow> delete_loop move_to_folder duplicates_folder rest (fs, deleted_files)
      | Inr fs' \<Rightarrow>
          delete_loop move_to_folder duplicates_folder rest (fs', deleted_files @ [dup_file]))"

definition delete_duplicates ::
  "processor \<Rightarrow> filesystem \<Rightarrow> (string \<times> group_data) list \<Rightarrow> bool \<Rightarrow> bool \<Rightarrow>
   error + (path list \<times> filesystem)" where
  "delete_duplicates self fs duplicates move_to_folder auto_delete_low_res =
     (case (if move_to_folder \<and> source_dirs self \<noteq> []
            then (let duplicates_folder = path_join (hd (source_dirs self)) ''_duplicates''
                  in case mkdir_exist_ok fs duplicates_folder of
                       Inl e \<Rightarrow> Inl e
                     | Inr fs1 \<Rightarrow> Inr (Some duplicates_folder, fs1))
            else Inr (None, fs)) of
        Inl e \<Rightarrow> Inl e
      | Inr (duplicates_folder, fs1) \<Rightarrow>
          (let low_res_files = groups_loop fs1 duplicates []
           in if low_res_files = [] then Inr ([], fs1)
              else (let (fs2, deleted_files) =
                          delete_loop move_to_folder duplicates_folder low_res_files (fs1, [])
                    in Inr (deleted_files, fs2))))"

text \<open>
  Concrete inputs: three files of 100, 200 and 300 bytes with equal resolution in one
  group (in two orders), and a file system in which the names \<open>a.jpg\<close> and \<open>a_1.jpg\<close>
  are already taken in a person folder and \<open>a.jpg\<close> is taken in the duplicates folder.
\<close>

definition dx_fs :: filesystem where
  "dx_fs = [([''photos''], Dir),
            ([''photos'', ''a.jpg''], File (replicate 100 CHR ''a'')),
            ([''photos'', ''b.jpg''], File (replicate 200 CHR ''b'')),
            ([''photos'', ''c.jpg''], File (replicate 300 CHR ''c''))]"


definition dx_self :: processor where
  "dx_self = ImageProcessor_init [[''photos'']] None None None"


definition dx_fs2 :: filesystem where
  "dx_fs2 = [([''photos''], Dir), ([''photos'', ''a.jpg''], File ''new''),
             ([''photos'', ''_duplicates''], Dir),
             ([''photos'', ''_duplicates'', ''a.jpg''], File ''old''),
             ([''out''], Dir), ([''out'', ''Person_1''], Dir),
             ([''out'', ''Person_1'', ''a.jpg''], File ''first''),
             ([''out'', ''Person_1'', ''a_1.jpg''], File ''second'')]"

subsection \<open>Notions for the properties of ranking and deletion\<close>






definition wf_fs :: "filesystem \<Rightarrow> bool" where
  "wf_fs fs \<longleftrightarrow> (\<forall>e \<in> set fs. is_dir fs (butlast (fst e)))"

subsection \<open>Properties of ranking and deletion\<close>


















subsection \<open>The claims about ranking, reporting and deleting\<close>



lemma mkdir_exist_ok_files:
  "mkdir_exist_ok fs p = Inr fs' \<Longrightarrow>
   (fs_lookup fs' q = Some (File c)) = (fs_lookup fs q = Some (File c))"
  unfolding mkdir_exist_ok_def
  by (auto split: option.splits node.splits if_splits simp: fs_lookup_def)

lemma mkdir_exist_ok_new:
  "mkdir_exist_ok fs p = Inr fs' \<Longrightarrow> path_exists fs' q \<Longrightarrow> \<not> path_exists fs q \<Longrightarrow> q = p"
  unfolding mkdir_exist_ok_def
  by (auto split: option.splits node.splits if_splits simp: fs_lookup_def path_exists_def)

text \<open>
  Claim C3 as stated fails in move-to-folder mode: the duplicates folder is created
  before the mapping is looked at, and when the first source directory does not exist
  that \<open>mkdir\<close> raises instead of returning the empty list.
\<close>

theorem empty_delete_creates_folder_counterexample:
  "\<not> path_exists dx_fs [''photos'', ''_duplicates''] \<and>
   delete_duplicates dx_self dx_fs [] True False
     = Inr ([], ([''photos'', ''_duplicates''], Dir) # dx_fs) \<and>
   delete_duplicates dx_self [] [] True False
     = Inl (FileNotFoundError [''photos'', ''_duplicates''])"
  by code_simp

text \<open>
  Claim C3, amended. With an empty mapping, permanent-delete mode (and move-to-folder mode
  without a source directory) returns the empty list and the unchanged file system.
  Move-to-folder mode with a source directory does what \<open>mkdir(exist_ok=True)\<close> on
  \<open>source_dirs[0] / "_duplicates"\<close> does: it raises when that raises, and otherwise
  returns the empty list. Whenever the call returns, the list is empty, every path that
  existed keeps its node, the regular files are the same as before, and the only path
  that can be new is that folder.
\<close>

theorem delete_duplicates_empty:
  "delete_duplicates self fs [] False auto_delete = Inr ([], fs) \<and>
   (source_dirs self = [] \<longrightarrow> delete_duplicates self fs [] True auto_delete = Inr ([], fs)) \<and>
   (source_dirs self \<noteq> [] \<longrightarrow>
      delete_duplicates self fs [] True auto_delete =
        (case mkdir_exist_ok fs (path_join (hd (source_dirs self)) ''_duplicates'') of
           Inl e \<Rightarrow> Inl e
         | Inr fs1 \<Rightarrow> Inr ([], fs1))) \<and>
   (delete_duplicates self fs [] move_to_folder auto_delete = Inr (deleted, fs') \<longrightarrow>
      deleted = [] \<and>
      (\<forall>q. path_exists fs q \<longrightarrow> fs_lookup fs' q = fs_lookup fs q) \<and>
      (\<forall>q c. fs_lookup fs' q = Some (File c) \<longleftrightarrow> fs_lookup fs q = Some (File c)) \<and>
      (\<forall>q. path_exists fs' q \<and> \<not> path_exists fs q \<longrightarrow>
         move_to_folder \<and> source_dirs self \<noteq> [] \<and>
         q = path_join (hd (source_dirs self)) ''_duplicates''))"
proof -
  have 1: "delete_duplicates self fs [] False auto_delete = Inr ([], fs)"
    by (simp add: delete_duplicates_def)
  have 2: "source_dirs self = [] \<longrightarrow> delete_duplicates self fs [] True auto_delete = Inr ([], fs)"
    by (simp add: delete_duplicates_def)
  have 3: "source_dirs self \<noteq> [] \<longrightarrow>
      delete_duplicates self fs [] True auto_delete =
        (case mkdir_exist_ok fs (path_join (hd (source_dirs self)) ''_duplicates'') of
           Inl e \<Rightarrow> Inl e
         | Inr fs1 \<Rightarrow> Inr ([], fs1))"
    by (simp add: delete_duplicates_def Let_def split: sum.splits)
  have 4: "deleted = [] \<and>
      (\<forall>q. path_exists fs q \<longrightarrow> fs_lookup fs' q = fs_lookup fs q) \<and>
      (\<forall>q c. fs_lookup fs' q = Some (File c) \<longleftrightarrow> fs_lookup fs q = Some (File c)) \<and>
      (\<forall>q. path_exists fs' q \<and> \<not> path_exists fs q \<longrightarrow>
         move_to_folder \<and> source_dirs self \<noteq> [] \<and>
         q = path_join (hd (source_dirs self)) ''_duplicates'')"
    if run: "delete_duplicates self fs [] move_to_folder auto_delete = Inr (deleted, fs')"
  proof (cases "move_to_folder \<and> source_dirs self \<noteq> []")
    case False
    with run have "deleted = []" "fs' = fs"
      by (auto simp: delete_duplicates_def)
    then show ?thesis by simp
  next
    case True
    with run 3 have m: "mkdir_exist_ok fs (path_join (hd (source_dirs self)) ''_duplicates'') = Inr fs'"
      and d: "deleted = []"
      by (auto split: sum.splits)
    from mkdir_exist_ok_preserves[OF m] mkdir_exist_ok_files[OF m] mkdir_exist_ok_new[OF m] d True
    show ?thesis unfolding preserves_def by blast
  qed
  from 1 2 3 4 show ?thesis by blast
qed

theorem delete_duplicates_empty_witness:
  "source_dirs dx_self \<noteq> [] \<and>
   delete_duplicates dx_self dx_fs [] True False
     = Inr ([], ([''photos'', ''_duplicates''], Dir) # dx_fs) \<and>
   fs_lookup (([''photos'', ''_duplicates''], Dir) # dx_fs) [''photos'', ''a.jpg'']
     = fs_lookup dx_fs [''photos'', ''a.jpg'']"
proof -
  note T = delete_duplicates_empty[of dx_self dx_fs False True "[]"
      "([''photos'', ''_duplicates''], Dir) # dx_fs"]
  have s: "source_dirs dx_self \<noteq> []" by (simp add: dx_self_def ImageProcessor_init_def)
  have m: "mkdir_exist_ok dx_fs (path_join (hd (source_dirs dx_self)) ''_duplicates'')
             = Inr (([''photos'', ''_duplicates''], Dir) # dx_fs)" by code_simp
  from T s m have r: "delete_duplicates dx_self dx_fs [] True False
     = Inr ([], ([''photos'', ''_duplicates''], Dir) # dx_fs)" by simp
  have e: "path_exists dx_fs [''photos'', ''a.jpg'']" by code_simp
  from T r e have "fs_lookup (([''photos'', ''_duplicates''], Dir) # dx_fs) [''photos'', ''a.jpg'']
     = fs_lookup dx_fs [''photos'', ''a.jpg'']" by blast
  with s r show ?thesis by simp
qed

lemma wf_exists_prefix:
  assumes "wf_fs fs"
  shows "path_exists fs (d @ r) \<Longrightarrow> path_exists fs d"
proof (induction r rule: rev_induct)
  case Nil
  then show ?case by simp
next
  case (snoc x r)
  then obtain n where "map_of fs (d @ r @ [x]) = Some n"
    by (auto simp: path_exists_def fs_lookup_def)
  then have "(d @ r @ [x], n) \<in> set fs" by (rule map_of_SomeD)
  with assms have "is_dir fs (butlast (d @ r @ [x]))" unfolding wf_fs_def by force
  then have "path_exists fs (d @ r)"
    by (simp add: is_dir_def path_exists_def butlast_append)
  then show ?case by (rule snoc.IH)
qed

lemma wf_nothing_below:
  assumes "wf_fs fs" and "\<not> path_exists fs d" and "prefix d q"
  shows "\<not> path_exists fs q"
proof
  assume q: "path_exists fs q"
  from assms(3) obtain r where "q = d @ r" by (auto simp: prefix_def)
  with q wf_exists_prefix[OF assms(1), of d r] assms(2) show False by simp
qed

lemma rename_tree_lookup:
  "\<not> prefix src q \<Longrightarrow> \<not> prefix dst q \<Longrightarrow> map_of (rename_tree fs src dst) q = map_of fs q"
proof (induction fs)
  case Nil
  then show ?case by (simp add: rename_tree_def)
next
  case (Cons a fs)
  obtain p n where a: "a = (p, n)" by (cases a)
  from Cons have ih: "map_of (rename_tree fs src dst) q = map_of fs q" by simp
  show ?case
  proof (cases "prefix src p")
    case True
    have "dst @ drop (length src) p \<noteq> q" using Cons.prems(2) by auto
    moreover have "p \<noteq> q" using True Cons.prems(1) by auto
    ultimately show ?thesis using ih True by (simp add: a rename_tree_def)
  next
    case False
    then show ?thesis using ih by (simp add: a rename_tree_def)
  qed
qed

lemma fs_remove_lookup: "q \<noteq> p \<Longrightarrow> map_of (fs_remove fs p) q = map_of fs q"
  unfolding fs_remove_def by (induction fs) auto

lemma os_rename_frame:
  assumes "wf_fs fs" and "\<not> path_exists fs dst" and "os_rename fs src dst = Inr fs'"
    and "path_exists fs q" and "\<not> prefix src q"
  shows "fs_lookup fs' q = fs_lookup fs q"
proof -
  from assms(2,4) have qd: "q \<noteq> dst" by auto
  from assms(5) have qs: "q \<noteq> src" by auto
  from wf_nothing_below[OF assms(1,2)] assms(4) have nd: "\<not> prefix dst q" by blast
  show ?thesis
  proof (cases "fs_lookup fs src")
    case None
    with assms(3) show ?thesis by (simp add: os_rename_def)
  next
    case (Some n)
    show ?thesis
    proof (cases n)
      case (File c)
      with Some assms(3) have "fs' = (dst, File c) # fs_remove fs src"
        by (auto simp: os_rename_def split: if_splits)
      with qd qs show ?thesis by (simp add: fs_lookup_def fs_remove_lookup)
    next
      case Dir
      with Some assms(3) have "fs' = rename_tree fs src dst"
        by (auto simp: os_rename_def split: if_splits)
      with assms(5) nd show ?thesis by (simp add: fs_lookup_def rename_tree_lookup)
    qed
  qed
qed

lemma move_fresh: "\<not> path_exists fs dst \<Longrightarrow> move fs src dst = os_rename fs src dst"
  by (simp add: move_def is_dir_def path_exists_def Let_def)

lemma delete_one_move:
  "delete_one True (Some folder) fs dup_file =
     os_rename fs dup_file (free_dest fs folder dup_file (path_join folder (path_name dup_file)) 1)"
  by (simp add: delete_one_def Let_def move_fresh free_dest_free)

lemma copy_into_written:
  assumes "copy_into fs out folder_name img_path = (None, fs2)"
  shows "\<exists>fs1 c. mkdir_parents fs (path_join out folder_name) = Inr fs1 \<and>
           fs_lookup fs1 img_path = Some (File c) \<and>
           fs2 = (free_dest fs1 (path_join out folder_name) img_path
                    (path_join (path_join out folder_name) (path_name img_path)) 1, File c) # fs1"
proof (cases "mkdir_parents fs (path_join out folder_name)")
  case (Inl e)
  with assms show ?thesis by (simp add: copy_into_def)
next
  case (Inr fs1)
  let ?d = "free_dest fs1 (path_join out folder_name) img_path
              (path_join (path_join out folder_name) (path_name img_path)) 1"
  have nd: "\<not> is_dir fs1 ?d"
    using free_dest_free[of fs1 "path_join out folder_name" img_path
        "path_join (path_join out folder_name) (path_name img_path)" 1]
    by (simp add: is_dir_def path_exists_def)
  from assms Inr obtain c where "fs_lookup fs1 img_path = Some (File c)"
    "fs2 = (?d, File c) # fs1"
    using nd
    by (auto simp: copy_into_def copy2_def Let_def
        split: sum.splits option.splits node.splits if_splits)
  with Inr show ?thesis by blast
qed

text \<open>
  Claim C9. The destination chosen by the collision loop does not exist; it is
  \<open>folder / name\<close> when that is free, and otherwise \<open>folder / stem_k suffix\<close> for the
  least \<open>k \<ge> 1\<close> whose name is free. The organizer's copy leaves the node of every
  existing path as it was, and a successful copy writes the source's content at the
  chosen destination. The duplicate move renames the file to the chosen destination; in
  a file system where every entry lies in a directory, every existing path outside the
  moved source keeps its node.
\<close>

theorem writes_never_overwrite:
  "(let dest = free_dest fs folder src (path_join folder (path_name src)) 1 in
      \<not> path_exists fs dest \<and>
      (if path_exists fs (path_join folder (path_name src))
       then \<exists>k \<ge> 1. dest = path_join folder (numbered_name src k) \<and>
              (\<forall>j. 1 \<le> j \<and> j < k \<longrightarrow> path_exists fs (path_join folder (numbered_name src j)))
       else dest = path_join folder (path_name src))) \<and>
   numbered_name src k = path_stem src @ ''_'' @ str_nat k @ path_suffix src \<and>
   (\<forall>q. path_exists fs q \<longrightarrow>
      fs_lookup (snd (copy_into fs out folder_name img_path)) q = fs_lookup fs q) \<and>
   (copy_into fs out folder_name img_path = (None, fs2) \<longrightarrow>
      (\<exists>fs1 c. mkdir_parents fs (path_join out folder_name) = Inr fs1 \<and>
           fs_lookup fs1 img_path = Some (File c) \<and>
           fs2 = (free_dest fs1 (path_join out folder_name) img_path
                    (path_join (path_join out folder_name) (path_name img_path)) 1, File c) # fs1)) \<and>
   delete_one True (Some folder) fs dup_file =
     os_rename fs dup_file (free_dest fs folder dup_file (path_join folder (path_name dup_file)) 1) \<and>
   (wf_fs fs \<and> delete_one True (Some folder) fs dup_file = Inr fs' \<longrightarrow>
      (\<forall>q. path_exists fs q \<and> \<not> prefix dup_file q \<longrightarrow> fs_lookup fs' q = fs_lookup fs q))"
proof -
  let ?d0 = "path_join folder (path_name src)"
  let ?dest = "free_dest fs folder src ?d0 1"
  have a: "(let dest = ?dest in
      \<not> path_exists fs dest \<and>
      (if path_exists fs ?d0
       then \<exists>k \<ge> 1. dest = path_join folder (numbered_name src k) \<and>
              (\<forall>j. 1 \<le> j \<and> j < k \<longrightarrow> path_exists fs (path_join folder (numbered_name src j)))
       else dest = ?d0))"
  proof (cases "path_exists fs ?d0")
    case True
    with free_dest_form[of fs folder src ?d0 1] free_dest_free[of fs folder src ?d0 1]
    show ?thesis unfolding Let_def by auto
  next
    case False
    with free_dest_form[of fs folder src ?d0 1] free_dest_free[of fs folder src ?d0 1]
    show ?thesis unfolding Let_def by auto
  qed
  have b: "numbered_name src k = path_stem src @ ''_'' @ str_nat k @ path_suffix src"
    by (simp add: numbered_name_def)
  have c: "\<forall>q. path_exists fs q \<longrightarrow>
      fs_lookup (snd (copy_into fs out folder_name img_path)) q = fs_lookup fs q"
    using copy_into_preserves[of fs out folder_name img_path] unfolding preserves_def .
  have d: "copy_into fs out folder_name img_path = (None, fs2) \<longrightarrow>
      (\<exists>fs1 c. mkdir_parents fs (path_join out folder_name) = Inr fs1 \<and>
           fs_lookup fs1 img_path = Some (File c) \<and>
           fs2 = (free_dest fs1 (path_join out folder_name) img_path
                    (path_join (path_join out folder_name) (path_name img_path)) 1, File c) # fs1)"
    by (rule impI) (rule copy_into_written)
  have e: "wf_fs fs \<and> delete_one True (Some folder) fs dup_file = Inr fs' \<longrightarrow>
      (\<forall>q. path_exists fs q \<and> \<not> prefix dup_file q \<longrightarrow> fs_lookup fs' q = fs_lookup fs q)"
  proof (intro impI allI, elim conjE)
    fix q
    assume w: "wf_fs fs" and r: "delete_one True (Some folder) fs dup_file = Inr fs'"
      and q: "path_exists fs q" "\<not> prefix dup_file q"
    from r have "os_rename fs dup_file
        (free_dest fs folder dup_file (path_join folder (path_name dup_file)) 1) = Inr fs'"
      by (simp only: delete_one_move)
    from os_rename_frame[OF w free_dest_free this q] show "fs_lookup fs' q = fs_lookup fs q" .
  qed
  show ?thesis
    by (intro conjI) (rule a b c d e delete_one_move)+
qed

theorem writes_never_overwrite_witness:
  "wf_fs dx_fs2 \<and>
   path_exists dx_fs2 [''out'', ''Person_1'', ''a.jpg''] \<and>
   free_dest dx_fs2 [''out'', ''Person_1''] [''photos'', ''a.jpg'']
     [''out'', ''Person_1'', ''a.jpg''] 1 = [''out'', ''Person_1'', ''a_2.jpg''] \<and>
   \<not> path_exists dx_fs2 [''out'', ''Person_1'', ''a_2.jpg''] \<and>
   copy_into dx_fs2 [''out''] ''Person_1'' [''photos'', ''a.jpg'']
     = (None, ([''out'', ''Person_1'', ''a_2.jpg''], File ''new'') # dx_fs2) \<and>
   delete_one True (Some [''photos'', ''_duplicates'']) dx_fs2 [''photos'', ''a.jpg'']
     = Inr (([''photos'', ''_duplicates'', ''a_1.jpg''], File ''new'')
            # fs_remove dx_fs2 [''photos'', ''a.jpg'']) \<and>
   fs_lookup (([''photos'', ''_duplicates'', ''a_1.jpg''], File ''new'')
            # fs_remove dx_fs2 [''photos'', ''a.jpg'']) [''photos'', ''_duplicates'', ''a.jpg'']
     = Some (File ''old'') \<and>
   fs_lookup (snd (copy_into dx_fs2 [''out''] ''Person_1'' [''photos'', ''a.jpg'']))
       [''out'', ''Person_1'', ''a.jpg''] = Some (File ''first'')"
proof -
  note T = writes_never_overwrite[of dx_fs2 "[''out'', ''Person_1'']" "[''photos'', ''a.jpg'']" 2
      "[''out'']" "''Person_1''" "[''photos'', ''a.jpg'']"
      "([''out'', ''Person_1'', ''a_2.jpg''], File ''new'') # dx_fs2"
      "[''photos'', ''a.jpg'']"
      "([''photos'', ''_duplicates'', ''a_1.jpg''], File ''new'')
            # fs_remove dx_fs2 [''photos'', ''a.jpg'']"]
  note U = writes_never_overwrite[of dx_fs2 "[''photos'', ''_duplicates'']" "[''photos'', ''a.jpg'']" 1
      "[''out'']" "''Person_1''" "[''photos'', ''a.jpg'']"
      "([''out'', ''Person_1'', ''a_2.jpg''], File ''new'') # dx_fs2"
      "[''photos'', ''a.jpg'']"
      "([''photos'', ''_duplicates'', ''a_1.jpg''], File ''new'')
            # fs_remove dx_fs2 [''photos'', ''a.jpg'']"]
  have w: "wf_fs dx_fs2" unfolding wf_fs_def by code_simp
  have e: "path_exists dx_fs2 [''out'', ''Person_1'', ''a.jpg'']" by code_simp
  have f: "free_dest dx_fs2 [''out'', ''Person_1''] [''photos'', ''a.jpg'']
     [''out'', ''Person_1'', ''a.jpg''] 1 = [''out'', ''Person_1'', ''a_2.jpg'']" by code_simp
  have pj: "path_join [''out'', ''Person_1''] (path_name [''photos'', ''a.jpg''])
     = [''out'', ''Person_1'', ''a.jpg'']" by code_simp
  from T[THEN conjunct1] have nf: "\<not> path_exists dx_fs2 [''out'', ''Person_1'', ''a_2.jpg'']"
    unfolding Let_def pj f by (rule conjunct1)
  have c: "copy_into dx_fs2 [''out''] ''Person_1'' [''photos'', ''a.jpg'']
     = (None, ([''out'', ''Person_1'', ''a_2.jpg''], File ''new'') # dx_fs2)" by code_simp
  have d: "delete_one True (Some [''photos'', ''_duplicates'']) dx_fs2 [''photos'', ''a.jpg'']
     = Inr (([''photos'', ''_duplicates'', ''a_1.jpg''], File ''new'')
            # fs_remove dx_fs2 [''photos'', ''a.jpg''])" by code_simp
  have e2: "path_exists dx_fs2 [''photos'', ''_duplicates'', ''a.jpg'']"
    "\<not> prefix [''photos'', ''a.jpg''] [''photos'', ''_duplicates'', ''a.jpg'']"
    "fs_lookup dx_fs2 [''photos'', ''_duplicates'', ''a.jpg''] = Some (File ''old'')"
    "fs_lookup dx_fs2 [''out'', ''Person_1'', ''a.jpg''] = Some (File ''first'')"
    by code_simp+
  from U w d e2 have m: "fs_lookup (([''photos'', ''_duplicates'', ''a_1.jpg''], File ''new'')
            # fs_remove dx_fs2 [''photos'', ''a.jpg'']) [''photos'', ''_duplicates'', ''a.jpg'']
     = Some (File ''old'')" by metis
  from T e e2 have k: "fs_lookup (snd (copy_into dx_fs2 [''out''] ''Person_1'' [''photos'', ''a.jpg'']))
       [''out'', ''Person_1'', ''a.jpg''] = Some (File ''first'')" by metis
  show ?thesis by (intro conjI) (rule w e f nf c d m k)+
qed

section \<open>\<open>get_image_files\<close>\<close>

text \<open>
  \<open>str.upper\<close> and the case folding of a case-insensitive platform, on ASCII letters (the
  supported extensions are ASCII).
\<close>

definition ascii_upper :: "char \<Rightarrow> char" where
  "ascii_upper c =
     (let n = (of_char c :: nat) in if 97 \<le> n \<and> n \<le> 122 then char_of (n - 32) else c)"

definition ascii_lower :: "char \<Rightarrow> char" where
  "ascii_lower c =
     (let n = (of_char c :: nat) in if 65 \<le> n \<and> n \<le> 90 then char_of (n + 32) else c)"

definition str_upper :: "string \<Rightarrow> string" where
  "str_upper s = map ascii_upper s"

definition str_lower :: "string \<Rightarrow> string" where
  "str_lower s = map ascii_lower s"

text \<open>
  \<open>source_dir.rglob('*' + ext)\<close>: every entry below the directory, at any depth, whose
  name matches the pattern. The extensions contain no pattern character, so a name
  matches exactly when it ends with the extension; pathlib compares case-sensitively on
  POSIX and folds case on Windows (\<open>case_sensitive = False\<close>). The order of the
  entries is the order of the table.
\<close>

definition glob_star :: "bool \<Rightarrow> string \<Rightarrow> string \<Rightarrow> bool" where
  "glob_star case_sensitive ext name =
     (if case_sensitive then suffix ext name else suffix (str_lower ext) (str_lower name))"

definition rglob :: "filesystem \<Rightarrow> bool \<Rightarrow> path \<Rightarrow> string \<Rightarrow> path list" where
  "rglob fs case_sensitive source_dir ext =
     (if is_dir fs source_dir
      then filter (\<lambda>q. strict_prefix source_dir q \<and> glob_star case_sensitive ext (path_name q))
             (remdups (map fst fs))
      else [])"

text \<open>
  \<open>supported_formats\<close> is a Python set: the loop visits its elements in an order the
  language does not fix. The order is the argument \<open>exts\<close>, a list of the set's elements.
\<close>

fun formats_loop ::
  "filesystem \<Rightarrow> bool \<Rightarrow> path \<Rightarrow> string list \<Rightarrow> path list \<Rightarrow> path list" where
  "formats_loop fs case_sensitive source_dir [] image_files = image_files"
| "formats_loop fs case_sensitive source_dir (ext # rest) image_files =
     formats_loop fs case_sensitive source_dir rest
       (image_files @ rglob fs case_sensitive source_dir ext
                    @ rglob fs case_sensitive source_dir (str_upper ext))"

fun dirs_loop ::
  "filesystem \<Rightarrow> bool \<Rightarrow> string list \<Rightarrow> path list \<Rightarrow> path list \<Rightarrow> path list" where
  "dirs_loop fs case_sensitive exts [] image_files = image_files"
| "dirs_loop fs case_sensitive exts (source_dir # rest) image_files =
     (if \<not> path_exists fs source_dir
      then dirs_loop fs case_sensitive exts rest image_files
      else dirs_loop fs case_sensitive exts rest
             (formats_loop fs case_sensitive source_dir exts image_files))"

definition get_image_files :: "processor \<Rightarrow> filesystem \<Rightarrow> bool \<Rightarrow> string list \<Rightarrow> path list" where
  "get_image_files self fs case_sensitive exts =
     dirs_loop fs case_sensitive exts (source_dirs self) []"

text \<open>
  A concrete tree: three JPEG files whose extensions are written \<open>jpg\<close>, \<open>JPG\<close> and
  \<open>Jpg\<close>, a text file and a PNG file in a subfolder. \<open>gx_exts\<close> is one iteration order
  of the supported formats.
\<close>

definition gx_fs :: filesystem where
  "gx_fs = [([''photos''], Dir), ([''photos'', ''a.jpg''], File ''a''),
            ([''photos'', ''b.JPG''], File ''b''), ([''photos'', ''c.Jpg''], File ''c''),
            ([''photos'', ''notes.txt''], File ''n''), ([''photos'', ''sub''], Dir),
            ([''photos'', ''sub'', ''d.png''], File ''d'')]"

definition gx_exts :: "string list" where
  "gx_exts = [''.png'', ''.jpg'', ''.webp'', ''.gif'', ''.jpeg'', ''.tiff'', ''.bmp'']"

definition gx_self :: processor where
  "gx_self = ImageProcessor_init [[''photos''], [''missing'']] None None None"

definition gx_self2 :: processor where
  "gx_self2 = ImageProcessor_init [[''photos''], [''photos'', ''sub'']] None None None"

text \<open>The paths matched below one source directory for one extension.\<close>

definition matching :: "filesystem \<Rightarrow> bool \<Rightarrow> path \<Rightarrow> string \<Rightarrow> path set" where
  "matching fs case_sensitive d ext =
     (if is_dir fs d
      then {q \<in> fst ` set fs. strict_prefix d q \<and>
              (glob_star case_sensitive ext (path_name q) \<or>
               glob_star case_sensitive (str_upper ext) (path_name q))}
      else {})"

subsection \<open>Properties of the enumeration\<close>

lemma lower_upper_char: "ascii_lower (ascii_upper c) = ascii_lower c"
  unfolding ascii_lower_def ascii_upper_def Let_def
  by (auto simp: of_char_of)

lemma str_lower_upper: "str_lower (str_upper s) = str_lower s"
  by (simp add: str_lower_def str_upper_def lower_upper_char)

lemma suffix_str_lower: "suffix a b \<Longrightarrow> suffix (str_lower a) (str_lower b)"
  unfolding str_lower_def by (rule map_mono_suffix)

lemma glob_star_lower:
  "glob_star cs ext name \<Longrightarrow> suffix (str_lower ext) (str_lower name)"
  by (auto simp: glob_star_def suffix_str_lower split: if_splits)

lemma glob_star_suffix: "suffix ext name \<Longrightarrow> glob_star cs ext name"
  by (simp add: glob_star_def suffix_str_lower)

lemma set_rglob2:
  "set (rglob fs cs d ext) \<union> set (rglob fs cs d (str_upper ext)) = matching fs cs d ext"
  by (auto simp: rglob_def matching_def)

lemma set_formats_loop:
  "set (formats_loop fs cs d exts acc) = set acc \<union> (\<Union>ext \<in> set exts. matching fs cs d ext)"
proof (induction exts arbitrary: acc)
  case Nil
  then show ?case by simp
next
  case (Cons ext exts)
  have "set (acc @ rglob fs cs d ext @ rglob fs cs d (str_upper ext))
          = set acc \<union> matching fs cs d ext"
    using set_rglob2[of fs cs d ext] by auto
  then show ?case by (simp add: Cons.IH Un_assoc)
qed

lemma set_dirs_loop:
  "set (dirs_loop fs cs exts ds acc) =
     set acc \<union> (\<Union>d \<in> set ds. \<Union>ext \<in> set exts. matching fs cs d ext)"
proof (induction ds arbitrary: acc)
  case Nil
  then show ?case by simp
next
  case (Cons d ds)
  show ?case
  proof (cases "path_exists fs d")
    case True
    then show ?thesis by (simp add: Cons.IH set_formats_loop Un_assoc)
  next
    case False
    then have "\<not> is_dir fs d" by (simp add: is_dir_def path_exists_def)
    then have "\<And>ext. matching fs cs d ext = {}" by (simp add: matching_def)
    with False show ?thesis by (simp add: Cons.IH)
  qed
qed

lemma dirs_loop_filter:
  "dirs_loop fs cs exts (filter (path_exists fs) ds) acc = dirs_loop fs cs exts ds acc"
  by (induction ds arbitrary: acc) auto

lemma set_get_image_files:
  "set (get_image_files self fs cs exts) =
     (\<Union>d \<in> set (source_dirs self). \<Union>ext \<in> set exts. matching fs cs d ext)"
  by (simp add: get_image_files_def set_dirs_loop)

lemma in_table_exists: "q \<in> fst ` set fs \<Longrightarrow> path_exists fs q"
proof -
  assume "q \<in> fst ` set fs"
  then have "q \<in> dom (map_of fs)" by (simp add: dom_map_of_conv_image_fst)
  then show ?thesis by (auto simp: path_exists_def fs_lookup_def)
qed

lemma exists_in_table: "path_exists fs q \<Longrightarrow> q \<noteq> [] \<Longrightarrow> q \<in> fst ` set fs"
proof -
  assume "path_exists fs q" "q \<noteq> []"
  then have "q \<in> dom (map_of fs)" by (auto simp: path_exists_def fs_lookup_def)
  then show ?thesis by (simp add: dom_map_of_conv_image_fst)
qed

subsection \<open>The claim about \<open>get_image_files\<close>\<close>

text \<open>
  Claim C4, amended. For every iteration order of the supported formats: each returned
  path exists below a listed source directory that is a directory, and its name ends,
  ignoring case, with a supported extension; each existing path below such a directory
  whose name ends with a supported extension, written as in the list or in upper case,
  is returned; source directories that do not exist contribute nothing and raise
  nothing; and the supported extensions of a new processor are the seven of the
  allowlist. The result may contain a path more than once.
\<close>

theorem get_image_files_matches:
  "(set exts = supported_formats self \<and> p \<in> set (get_image_files self fs cs exts) \<longrightarrow>
      (\<exists>d \<in> set (source_dirs self). is_dir fs d \<and> strict_prefix d p) \<and>
      path_exists fs p \<and>
      (\<exists>ext \<in> supported_formats self. suffix (str_lower ext) (str_lower (path_name p)))) \<and>
   (set exts = supported_formats self \<and> d \<in> set (source_dirs self) \<and> is_dir fs d \<and>
    strict_prefix d p \<and> path_exists fs p \<and> ext \<in> supported_formats self \<and>
    (suffix ext (path_name p) \<or> suffix (str_upper ext) (path_name p)) \<longrightarrow>
      p \<in> set (get_image_files self fs cs exts)) \<and>
   get_image_files (self\<lparr>source_dirs := filter (path_exists fs) (source_dirs self)\<rparr>) fs cs exts
     = get_image_files self fs cs exts \<and>
   supported_formats (ImageProcessor_init dirs out thr cnn)
     = {''.jpg'', ''.jpeg'', ''.png'', ''.bmp'', ''.gif'', ''.tiff'', ''.webp''}"
proof -
  have sound: "(\<exists>d \<in> set (source_dirs self). is_dir fs d \<and> strict_prefix d p) \<and>
      path_exists fs p \<and>
      (\<exists>ext \<in> supported_formats self. suffix (str_lower ext) (str_lower (path_name p)))"
    if e: "set exts = supported_formats self" and m: "p \<in> set (get_image_files self fs cs exts)"
  proof -
    from m obtain d0 ext0 where d0: "d0 \<in> set (source_dirs self)" and x: "ext0 \<in> set exts"
      and mm: "p \<in> matching fs cs d0 ext0"
      unfolding set_get_image_files by blast
    from mm have dir: "is_dir fs d0" and t: "p \<in> fst ` set fs" and sp: "strict_prefix d0 p"
      and g: "glob_star cs ext0 (path_name p) \<or> glob_star cs (str_upper ext0) (path_name p)"
      by (auto simp: matching_def split: if_splits)
    from g have "suffix (str_lower ext0) (str_lower (path_name p))"
      using glob_star_lower[of cs ext0 "path_name p"]
        glob_star_lower[of cs "str_upper ext0" "path_name p"]
      by (auto simp: str_lower_upper)
    with x e have "\<exists>ext \<in> supported_formats self. suffix (str_lower ext) (str_lower (path_name p))"
      by blast
    with d0 dir sp in_table_exists[OF t] show ?thesis by blast
  qed
  have complete: "p \<in> set (get_image_files self fs cs exts)"
    if e: "set exts = supported_formats self" and d: "d \<in> set (source_dirs self)"
      and dir: "is_dir fs d" and sp: "strict_prefix d p" and ex: "path_exists fs p"
      and x: "ext \<in> supported_formats self"
      and s: "suffix ext (path_name p) \<or> suffix (str_upper ext) (path_name p)"
  proof -
    from sp have "p \<noteq> []" by auto
    with ex have t: "p \<in> fst ` set fs" by (rule exists_in_table)
    from s have "glob_star cs ext (path_name p) \<or> glob_star cs (str_upper ext) (path_name p)"
      using glob_star_suffix by blast
    with dir t sp have "p \<in> matching fs cs d ext" by (simp add: matching_def)
    with d x e show ?thesis unfolding set_get_image_files by blast
  qed
  have skip: "get_image_files (self\<lparr>source_dirs := filter (path_exists fs) (source_dirs self)\<rparr>)
       fs cs exts = get_image_files self fs cs exts"
    by (simp add: get_image_files_def dirs_loop_filter)
  have fmts: "supported_formats (ImageProcessor_init dirs out thr cnn)
     = {''.jpg'', ''.jpeg'', ''.png'', ''.bmp'', ''.gif'', ''.tiff'', ''.webp''}"
    by (simp add: ImageProcessor_init_def)
  from sound have s': "set exts = supported_formats self \<and> p \<in> set (get_image_files self fs cs exts) \<longrightarrow>
      (\<exists>d \<in> set (source_dirs self). is_dir fs d \<and> strict_prefix d p) \<and>
      path_exists fs p \<and>
      (\<exists>ext \<in> supported_formats self. suffix (str_lower ext) (str_lower (path_name p)))"
    by blast
  from complete have c': "set exts = supported_formats self \<and> d \<in> set (source_dirs self) \<and> is_dir fs d \<and>
    strict_prefix d p \<and> path_exists fs p \<and> ext \<in> supported_formats self \<and>
    (suffix ext (path_name p) \<or> suffix (str_upper ext) (path_name p)) \<longrightarrow>
      p \<in> set (get_image_files self fs cs exts)"
    by blast
  show ?thesis by (intro conjI) (rule s' c' skip fmts)+
qed

lemma gx_exts_set: "set gx_exts = supported_formats gx_self"
  unfolding gx_exts_def gx_self_def ImageProcessor_init_def by auto

lemma gx_exts_set2: "set gx_exts = supported_formats gx_self2"
  unfolding gx_exts_def gx_self2_def ImageProcessor_init_def by auto

text \<open>
  Claim C4 as stated fails twice. The result is a list with repetitions: a file below two
  listed source directories is returned once for each (and on a case-insensitive
  platform every file matches both the lower-case and the upper-case pattern). And on a
  case-sensitive platform a mixed-case extension such as \<open>.Jpg\<close> matches neither
  pattern.
\<close>

theorem get_image_files_counterexample:
  "set gx_exts = supported_formats gx_self2 \<and>
   \<not> distinct (get_image_files gx_self2 gx_fs True gx_exts) \<and>
   \<not> distinct (get_image_files gx_self gx_fs False gx_exts) \<and>
   path_exists gx_fs [''photos'', ''c.Jpg''] \<and>
   [''photos'', ''c.Jpg''] \<notin> set (get_image_files gx_self gx_fs True gx_exts)"
proof -
  have 1: "\<not> distinct (get_image_files gx_self2 gx_fs True gx_exts)" by code_simp
  have 2: "\<not> distinct (get_image_files gx_self gx_fs False gx_exts)" by code_simp
  have 3: "path_exists gx_fs [''photos'', ''c.Jpg'']" by code_simp
  have 4: "[''photos'', ''c.Jpg''] \<notin> set (get_image_files gx_self gx_fs True gx_exts)"
    by code_simp
  show ?thesis by (intro conjI) (rule gx_exts_set2 1 2 3 4)+
qed

theorem get_image_files_matches_witness:
  "set gx_exts = supported_formats gx_self \<and>
   [''photos'', ''b.JPG''] \<in> set (get_image_files gx_self gx_fs True gx_exts) \<and>
   [''photos'', ''sub'', ''d.png''] \<in> set (get_image_files gx_self gx_fs True gx_exts) \<and>
   suffix (str_upper ''.jpg'') (path_name [''photos'', ''b.JPG'']) \<and>
   get_image_files gx_self gx_fs True gx_exts
     = [[''photos'', ''sub'', ''d.png''], [''photos'', ''a.jpg''], [''photos'', ''b.JPG'']] \<and>
   (\<exists>ext \<in> supported_formats gx_self.
      suffix (str_lower ext) (str_lower (path_name [''photos'', ''b.JPG''])))"
proof -
  note T = get_image_files_matches[of gx_exts gx_self "[''photos'', ''b.JPG'']" gx_fs True
      "[''photos'']" "''.jpg''" "[]" None None None]
  note U = get_image_files_matches[of gx_exts gx_self "[''photos'', ''sub'', ''d.png'']" gx_fs True
      "[''photos'']" "''.png''" "[]" None None None]
  have h: "[''photos''] \<in> set (source_dirs gx_self)" "is_dir gx_fs [''photos'']"
    "strict_prefix [''photos''] [''photos'', ''b.JPG'']"
    "path_exists gx_fs [''photos'', ''b.JPG'']"
    "''.jpg'' \<in> supported_formats gx_self"
    "suffix (str_upper ''.jpg'') (path_name [''photos'', ''b.JPG''])"
    "strict_prefix [''photos''] [''photos'', ''sub'', ''d.png'']"
    "path_exists gx_fs [''photos'', ''sub'', ''d.png'']"
    "''.png'' \<in> supported_formats gx_self"
    "suffix ''.png'' (path_name [''photos'', ''sub'', ''d.png''])"
    by code_simp+
  from T h gx_exts_set have a: "[''photos'', ''b.JPG''] \<in> set (get_image_files gx_self gx_fs True gx_exts)"
    by blast
  from U h gx_exts_set
  have b: "[''photos'', ''sub'', ''d.png''] \<in> set (get_image_files gx_self gx_fs True gx_exts)"
    by blast
  from T a gx_exts_set have c: "\<exists>ext \<in> supported_formats gx_self.
      suffix (str_lower ext) (str_lower (path_name [''photos'', ''b.JPG'']))" by blast
  have v: "get_image_files gx_self gx_fs True gx_exts
     = [[''photos'', ''sub'', ''d.png''], [''photos'', ''a.jpg''], [''photos'', ''b.JPG'']]"
    by code_simp
  show ?thesis by (intro conjI) (rule gx_exts_set a b h(6) v c)+
qed

end
